theory Spec2Isabelle
  imports Main "HOL-Library.Word" "HOL-Library.Sublist"
begin

section \<open>Constants, errors and logging\<close>

type_synonym byte = "8 word"

definition SAMPLE_RATE :: nat where
  "SAMPLE_RATE = 24000"

definition FRAME_SIZE :: nat where
  "FRAME_SIZE = 1920"

definition CHANNELS :: nat where
  "CHANNELS = 1"

datatype py_error = ValueError | IndexError | AssertionError | AttributeError

text \<open>The message types of the websocket library, as the handler tests them.\<close>

datatype ws_msg_type =
  CONTINUATION | TEXT | BINARY | PING | PONG | CLOSE | CLOSING | CLOSED | ERROR

text \<open>The \<open>data\<close> attribute of a websocket message: bytes, a string, or anything else.\<close>

datatype ws_data = Bytes "byte list" | Str string | No_data

datatype py_class = Class_bytes | Class_str | Class_other

fun class_of :: "ws_data \<Rightarrow> py_class" where
  "class_of (Bytes _) = Class_bytes"
| "class_of (Str _) = Class_str"
| "class_of No_data = Class_other"

record ws_message =
  mtype :: ws_msg_type
  mdata :: ws_data

text \<open>
  A printed line is the coloured prefix, the literal text of the message and the value the
  f-string interpolates, kept unformatted: no property below depends on how Python renders it.
  Text pieces of the tokenizer are lists of code points. A file is named by a local path or
  by what \<open>huggingface_hub\<close> is asked for (repository and path).
\<close>

datatype file_ref = Local_file string | Hub_file string string

datatype fmt =
    F_none
  | F_exception
  | F_type ws_msg_type
  | F_class py_class
  | F_kind byte
  | F_str string
  | F_piece "nat list"
  | F_file file_ref
  | F_tokens

type_synonym out_line = "string \<times> string \<times> fmt"

definition colorize :: "string \<Rightarrow> string \<Rightarrow> string" where
  "colorize text color =
     (let code = [CHR 0x1B] @ ''['' @ color @ ''m'';
          restore = [CHR 0x1B] @ ''[0m''
      in concat [code, text, restore])"

definition log :: "string \<Rightarrow> string \<times> fmt \<Rightarrow> py_error + out_line" where
  "log level msg =
     (if level = ''warning'' then Inr (colorize ''[Warn]'' ''1;31'', msg)
      else if level = ''info'' then Inr (colorize ''[Info]'' ''1;34'', msg)
      else if level = ''error'' then Inr (colorize ''[Err ]'' ''1;31'', msg)
      else Inl ValueError)"

section \<open>Wire frames\<close>

text \<open>\<open>b'\x00'\<close>, the handshake a handler sends first.\<close>

definition handshake_frame :: "byte list" where
  "handshake_frame = [0]"

text \<open>\<open>b"\x01" + msg\<close>, the frame \<open>send_loop\<close> of a session sends.\<close>

definition audio_frame :: "byte list \<Rightarrow> byte list" where
  "audio_frame msg = [1] @ msg"

text \<open>\<open>message[0]\<close>: indexing an empty bytes object raises \<open>IndexError\<close>.\<close>

definition index0 :: "'b list \<Rightarrow> py_error + 'b" where
  "index0 message = (case message of [] \<Rightarrow> Inl IndexError | k # _ \<Rightarrow> Inr k)"

text \<open>\<open>kind = message[0]\<close> and \<open>payload = message[1:]\<close>, as \<open>recv_loop\<close> reads a frame.\<close>

definition parse_frame :: "byte list \<Rightarrow> py_error + (byte \<times> byte list)" where
  "parse_frame message =
     (case index0 message of Inl e \<Rightarrow> Inl e | Inr kind \<Rightarrow> Inr (kind, drop 1 message))"

section \<open>The state of one connection handler\<close>

text \<open>
  \<open>Idle\<close>: no request yet; \<open>Waiting\<close>: the websocket is prepared and the handler waits at
  \<open>async with lock\<close>; \<open>Locked\<close>: inside the lock, before the handshake; \<open>Streaming\<close>: the
  handshake is sent and the handler waits in \<open>asyncio.gather\<close> for the four loops;
  \<open>Finished\<close>: the handler returned; \<open>Aborted\<close>: the handler was left by the exception of a
  loop, which \<open>gather\<close> raised again. A loop with a \<open>close\<close> test is either at the test or
  past its sleep, in its body; a loop ends by returning (\<open>Exited\<close>) or by an exception
  (\<open>Crashed\<close>).
\<close>

datatype phase = Idle | Waiting | Locked | Streaming | Finished | Aborted

datatype task = Not_started | At_check | In_body | Exited | Crashed py_error

record 'a session =
  phase :: phase
  close :: bool
  opus_task :: task
  recv_task :: task
  send_task :: task
  another_task :: task
  all_pcm_data :: "'a list option"
  opus_reader :: "byte list list"
  opus_writer :: "'a list list"
  sent :: "byte list list"
  printed :: "out_line list"

datatype flow = Continue | Break

text \<open>A call of \<open>log\<close> in a handler, and such a call followed by \<open>continue\<close> or \<open>break\<close>.\<close>

definition emit :: "string \<Rightarrow> string \<times> fmt \<Rightarrow> 'a session \<Rightarrow> py_error + 'a session" where
  "emit level msg s =
     (case log level msg of
        Inl e \<Rightarrow> Inl e
      | Inr l \<Rightarrow> Inr (s\<lparr>printed := printed s @ [l]\<rparr>))"

definition say ::
  "string \<Rightarrow> string \<times> fmt \<Rightarrow> flow \<Rightarrow> 'a session \<Rightarrow> py_error + (flow \<times> 'a session)" where
  "say level msg fl s =
     (case emit level msg s of
        Inl e \<Rightarrow> Inl e
      | Inr s' \<Rightarrow> Inr (fl, s'))"

text \<open>
  The body of \<open>async for message in ws\<close> in the session's \<open>recv_loop\<close>, for one message.
  \<open>opus_reader.append_bytes\<close> is recorded as the list of payloads fed to the Opus decoder.
\<close>

definition recv_body :: "ws_message \<Rightarrow> 'a session \<Rightarrow> py_error + (flow \<times> 'a session)" where
  "recv_body message s =
     (if mtype message = ERROR then say ''error'' ('''', F_exception) Break s
      else if mtype message = CLOSED then Inr (Break, s)
      else if mtype message \<noteq> BINARY then
        say ''error'' (''unexpected message type '', F_type (mtype message)) Continue s
      else
        (case mdata message of
           Bytes bs \<Rightarrow>
             (if length bs = 0 then say ''warning'' (''empty message'', F_none) Continue s
              else
                (case parse_frame bs of
                   Inl e \<Rightarrow> Inl e
                 | Inr (kind, payload) \<Rightarrow>
                     (if kind = 1 then Inr (Continue, s\<lparr>opus_reader := opus_reader s @ [payload]\<rparr>)
                      else say ''warning'' (''unknown message kind '', F_kind kind) Continue s)))
         | other \<Rightarrow>
             say ''error'' (''unsupported message type '', F_class (class_of other)) Continue s))"

text \<open>
  The \<open>finally\<close> block of \<open>recv_loop\<close>, and the end of the loop through it: by a
  \<open>break\<close> or the end of the iteration, or with an exception \<open>pending\<close> from the body, which
  goes on after the block unless the block raises itself.
\<close>

definition recv_finally :: "'a session \<Rightarrow> py_error + 'a session" where
  "recv_finally s = emit ''info'' (''connection closed'', F_none) (s\<lparr>close := True\<rparr>)"

definition recv_exit :: "py_error option \<Rightarrow> 'a session \<Rightarrow> 'a session" where
  "recv_exit pending s =
     (case recv_finally s of
        Inl e \<Rightarrow> s\<lparr>close := True, recv_task := Crashed e\<rparr>
      | Inr s' \<Rightarrow>
          s'\<lparr>recv_task := (case pending of None \<Rightarrow> Exited | Some e \<Rightarrow> Crashed e)\<rparr>)"

section \<open>The PCM assembler\<close>

text \<open>The inner \<open>while\<close> of \<open>opus_loop\<close>: frames of \<open>FRAME_SIZE\<close> samples are cut off the front.\<close>

function slice_frames :: "'a list \<Rightarrow> 'a list list \<Rightarrow> 'a list \<times> 'a list list" where
  "slice_frames acc queue =
     (if length acc \<ge> FRAME_SIZE
      then slice_frames (drop FRAME_SIZE acc) (queue @ [take FRAME_SIZE acc])
      else (acc, queue))"
  by pat_completeness auto
termination
  by (relation "measure (\<lambda>(acc, queue). length acc)") (auto simp: FRAME_SIZE_def)

declare slice_frames.simps [simp del]

text \<open>One poll of \<open>opus_loop\<close> after its sleep, \<open>pcm\<close> being what \<open>read_pcm\<close> returned.\<close>

definition opus_poll ::
  "'a list \<Rightarrow> 'a list option \<times> 'a list list \<Rightarrow> 'a list option \<times> 'a list list" where
  "opus_poll pcm st =
     (case st of (acc, queue) \<Rightarrow>
        if length pcm = 0 then (acc, queue)
        else
          (let joined = (case acc of None \<Rightarrow> pcm | Some a \<Rightarrow> a @ pcm)
           in case slice_frames joined queue of (rest, queue') \<Rightarrow> (Some rest, queue')))"

text \<open>The polls of one session in order, from \<open>all_pcm_data = None\<close>.\<close>

fun opus_polls :: "'a list list \<Rightarrow> 'a list option \<times> 'a list list \<Rightarrow> 'a list option \<times> 'a list list" where
  "opus_polls [] st = st"
| "opus_polls (pcm # later) st = opus_polls later (opus_poll pcm st)"

definition buffered :: "'a list option \<Rightarrow> 'a list" where
  "buffered acc = (case acc of None \<Rightarrow> [] | Some a \<Rightarrow> a)"


definition idle_session :: "'a session" where
  "idle_session = \<lparr>phase = Idle, close = False, opus_task = Not_started, recv_task = Not_started,
     send_task = Not_started, another_task = Not_started, all_pcm_data = None, opus_reader = [],
     opus_writer = [], sent = [], printed = []\<rparr>"

section \<open>Channels, the codec and the engine as the gateway sees them\<close>

text \<open>
  What travels on \<open>server_to_client\<close>: the string the engine puts once it is ready, or
  generated audio tokens. The queue is untyped in the source, so both are items of one type.
\<close>

datatype 't s2c_item = Ready string | Tokens 't

fun fmt_item :: "'t s2c_item \<Rightarrow> fmt" where
  "fmt_item (Ready s) = F_str s"
| "fmt_item (Tokens _) = F_tokens"

text \<open>
  The language model is opaque: \<open>gen_step k\<close> is what the \<open>k\<close>-th call of \<open>gen.step\<close>
  returns as text token, with what \<open>gen.last_audio_tokens()\<close> returns after it (the reshaping
  of the input frame is part of that call). \<open>id_to_piece\<close> is the text tokenizer.
\<close>

record 't lm =
  gen_step :: "nat \<Rightarrow> int \<times> 't option"
  id_to_piece :: "int \<Rightarrow> nat list"

datatype eng_status = Eng_not_started | Eng_serving | Eng_dead py_error

datatype ('f, 't) eng_event =
    E_log out_line
  | E_load_tokenizer file_ref
  | E_build_model "int option"
  | E_load_weights file_ref
  | E_model_warmup
  | E_make_gen
  | E_put "'t s2c_item"
  | E_get 'f
  | E_step nat

text \<open>
  What the gateway process does, in order. Sleeps are in milliseconds. The codec is opaque:
  a call of \<open>get_encoded\<close> or \<open>get_decoded\<close> is recorded with its result.
\<close>

datatype ('a, 'f, 't) gw_event =
    Construct_codec file_ref
  | Q_get "'t s2c_item"
  | Sleep nat
  | Encode "'a list"
  | Get_encoded "'f option"
  | Put_c2s 'f
  | Decode "'t s2c_item"
  | Get_decoded "'a list option"
  | Gw_log out_line
  | Listen

text \<open>
  The two processes and their queues. \<open>enc_resp\<close> and \<open>dec_resp\<close> are the results the
  coming calls of \<open>get_encoded\<close> and \<open>get_decoded\<close> will give, in order; a polling loop
  that uses them up without a frame never ends within what is recorded.
\<close>

record ('a, 'f, 't) gw =
  c2s :: "'f list"
  s2c :: "'t s2c_item list"
  eng :: eng_status
  step_idx :: nat
  eng_trace :: "('f, 't) eng_event list"
  enc_resp :: "'f option list"
  dec_resp :: "'a list option list"
  trace :: "('a, 'f, 't) gw_event list"
  input_queue :: "'a list list"
  output_queue :: "'a list list"
  listening :: bool
  lock :: "nat option"
  sessions :: "nat \<Rightarrow> 'a session"

record args =
  arg_tokenizer :: "string option"
  arg_model :: "string option"
  arg_mimi :: "string option"
  arg_quantized :: "int option"
  arg_hf_repo :: "string option"
  arg_static :: "string option"

definition hf_hub_download :: "string option \<Rightarrow> string \<Rightarrow> py_error + file_ref" where
  "hf_hub_download repo path =
     (case repo of
        None \<Rightarrow> Inl ValueError
      | Some r \<Rightarrow> if r = '''' then Inl ValueError else Inr (Hub_file r path))"

definition bind_err :: "py_error + 'x \<Rightarrow> ('x \<Rightarrow> py_error + 'y) \<Rightarrow> py_error + 'y" where
  "bind_err r f = (case r of Inl e \<Rightarrow> Inl e | Inr x \<Rightarrow> f x)"

subsection \<open>The engine process\<close>

definition choose_model_file :: "args \<Rightarrow> py_error + file_ref" where
  "choose_model_file a =
     (case arg_model a of
        Some f \<Rightarrow> Inr (Local_file f)
      | None \<Rightarrow>
          (if arg_quantized a = Some 8
             then hf_hub_download (arg_hf_repo a) ''moshiko_mlx_301e30bf@120.q8.safetensors''
           else if arg_quantized a = Some 4
             then hf_hub_download (arg_hf_repo a) ''moshiko_mlx_301e30bf@120.q4.safetensors''
           else if arg_quantized a \<noteq> None then Inl ValueError
           else hf_hub_download (arg_hf_repo a) ''moshiko_mlx_301e30bf@120.safetensors''))"

definition choose_tokenizer_file :: "args \<Rightarrow> py_error + file_ref" where
  "choose_tokenizer_file a =
     (case arg_tokenizer a of
        Some f \<Rightarrow> Inr (Local_file f)
      | None \<Rightarrow> hf_hub_download (arg_hf_repo a) ''tokenizer_spm_32k_3.model'')"

text \<open>\<open>model_server\<close> up to its loop: what it does, in order, when nothing raises.\<close>

definition startup_events :: "args \<Rightarrow> py_error + ('f, 't) eng_event list" where
  "startup_events a =
     bind_err (choose_model_file a) (\<lambda>model_file.
     bind_err (choose_tokenizer_file a) (\<lambda>tokenizer_file.
     bind_err (log ''info'' (''[SERVER] loading text tokenizer '', F_file tokenizer_file)) (\<lambda>l1.
     bind_err (log ''info'' (''[SERVER] loading weights '', F_file model_file)) (\<lambda>l2.
     bind_err (log ''info'' (''[SERVER] weights loaded'', F_none)) (\<lambda>l3.
     bind_err (log ''info'' (''[SERVER] model warmed up'', F_none)) (\<lambda>l4.
     bind_err (log ''info'' (''[SERVER] connected!'', F_none)) (\<lambda>l5.
       Inr [E_log l1, E_load_tokenizer tokenizer_file, E_build_model (arg_quantized a),
            E_log l2, E_load_weights model_file, E_log l3,
            E_model_warmup, E_log l4, E_make_gen,
            E_put (Ready ''start''), E_log l5])))))))"

definition model_server_startup :: "args \<Rightarrow> ('a, 'f, 't) gw \<Rightarrow> ('a, 'f, 't) gw" where
  "model_server_startup a st =
     (case startup_events a of
        Inl e \<Rightarrow> st\<lparr>eng := Eng_dead e\<rparr>
      | Inr evs \<Rightarrow>
          st\<lparr>eng := Eng_serving, eng_trace := eng_trace st @ evs,
             s2c := s2c st @ [Ready ''start'']\<rparr>)"

text \<open>\<open>_text.replace\<close> of one character by another, on code points.\<close>

definition replace_char :: "nat \<Rightarrow> nat \<Rightarrow> nat list \<Rightarrow> nat list" where
  "replace_char old new text = map (\<lambda>c. if c = old then new else c) text"

definition token_log :: "'t lm \<Rightarrow> int \<Rightarrow> py_error + out_line list" where
  "token_log m text_token =
     (if text_token \<noteq> 0 \<and> text_token \<noteq> 3 then
        bind_err (log ''info''
                    (''token '', F_piece (replace_char 0x2581 0x20 (id_to_piece m text_token))))
          (\<lambda>l. Inr [l])
      else Inr [])"

definition put_tokens :: "'t option \<Rightarrow> 't s2c_item list" where
  "put_tokens audio_tokens = (case audio_tokens of None \<Rightarrow> [] | Some a \<Rightarrow> [Tokens a])"

text \<open>One turn of the loop of \<open>model_server\<close>, on the frame \<open>data\<close> it dequeued.\<close>

definition model_server_iter :: "'t lm \<Rightarrow> 'f \<Rightarrow> ('a, 'f, 't) gw \<Rightarrow> ('a, 'f, 't) gw" where
  "model_server_iter m data st =
     (case gen_step m (step_idx st) of (text_token, audio_tokens) \<Rightarrow>
        (case token_log m text_token of
           Inl e \<Rightarrow>
             st\<lparr>eng := Eng_dead e, step_idx := Suc (step_idx st),
                eng_trace := eng_trace st @ [E_get data, E_step (step_idx st)]\<rparr>
         | Inr ls \<Rightarrow>
             st\<lparr>step_idx := Suc (step_idx st),
                eng_trace := eng_trace st @ [E_get data, E_step (step_idx st)] @ map E_log ls
                               @ map E_put (put_tokens audio_tokens),
                s2c := s2c st @ put_tokens audio_tokens\<rparr>))"

text \<open>
  The engine takes the frames waiting on \<open>client_to_server\<close> in order and then blocks in
  \<open>client_to_server.get()\<close>. A dead or unstarted engine takes nothing.
\<close>

fun model_server_loop :: "'t lm \<Rightarrow> 'f list \<Rightarrow> ('a, 'f, 't) gw \<Rightarrow> ('a, 'f, 't) gw" where
  "model_server_loop m [] st = st"
| "model_server_loop m (data # waiting) st =
     (if eng st = Eng_serving
      then model_server_loop m waiting (model_server_iter m data (st\<lparr>c2s := waiting\<rparr>))
      else st)"

definition engine_run :: "'t lm \<Rightarrow> ('a, 'f, 't) gw \<Rightarrow> ('a, 'f, 't) gw" where
  "engine_run m st = model_server_loop m (c2s st) st"

subsection \<open>The warmup\<close>

text \<open>
  How a run of the gateway's start ends: it returns, it waits for ever in a blocking
  \<open>get\<close> on a queue nothing will be put on, a polling loop gets no frame within the recorded
  answers of the codec, or an exception leaves the process.
\<close>

datatype 's outcome = Done 's | Blocked 's | Starved 's | Raised py_error 's

fun final :: "'s outcome \<Rightarrow> 's" where
  "final (Done s) = s"
| "final (Blocked s) = s"
| "final (Starved s) = s"
| "final (Raised e s) = s"

fun warm_poll_encoded ::
  "'f option list \<Rightarrow> ('a, 'f, 't) gw_event list
     \<Rightarrow> 'f option \<times> 'f option list \<times> ('a, 'f, 't) gw_event list" where
  "warm_poll_encoded [] tr = (None, [], tr)"
| "warm_poll_encoded (r # rs) tr =
     (case r of
        None \<Rightarrow> warm_poll_encoded rs (tr @ [Sleep 10, Get_encoded None])
      | Some data \<Rightarrow> (Some data, rs, tr @ [Sleep 10, Get_encoded (Some data)]))"

fun warm_poll_decoded ::
  "'a list option list \<Rightarrow> ('a, 'f, 't) gw_event list
     \<Rightarrow> 'a list option \<times> 'a list option list \<times> ('a, 'f, 't) gw_event list" where
  "warm_poll_decoded [] tr = (None, [], tr)"
| "warm_poll_decoded (r # rs) tr =
     (case r of
        None \<Rightarrow> warm_poll_decoded rs (tr @ [Sleep 10, Get_decoded None])
      | Some data \<Rightarrow> (Some data, rs, tr @ [Sleep 10, Get_decoded (Some data)]))"

text \<open>
  One turn of the \<open>for\<close> loop of \<open>full_warmup\<close>, in its two halves. The first encodes
  a frame of 1920 zeros, polls for the encoded frame and puts it on \<open>client_to_server\<close>.
  The second, skipped when \<open>i = 0\<close>, takes one item from \<open>server_to_client\<close>, has it
  decoded and polls for the PCM. The blocking \<open>server_to_client.get()\<close> returns the next
  item once the engine has worked through the frames put so far; if the engine then has
  nothing to give, the gateway waits for ever.
\<close>

definition warm_encode :: "('a::zero, 'f, 't) gw \<Rightarrow> ('a, 'f, 't) gw outcome" where
  "warm_encode st =
     (case warm_poll_encoded (enc_resp st) (trace st @ [Encode (replicate 1920 0)]) of
        (None, rs, tr) \<Rightarrow> Starved (st\<lparr>enc_resp := rs, trace := tr\<rparr>)
      | (Some data, rs, tr) \<Rightarrow>
          Done (st\<lparr>enc_resp := rs, trace := tr @ [Put_c2s data], c2s := c2s st @ [data]\<rparr>))"

definition warm_decode :: "'t lm \<Rightarrow> ('a, 'f, 't) gw \<Rightarrow> ('a, 'f, 't) gw outcome" where
  "warm_decode m st =
     (let st3 = engine_run m st
      in case s2c st3 of
           [] \<Rightarrow> Blocked st3
         | audio_tokens # waiting \<Rightarrow>
             (case warm_poll_decoded (dec_resp st3)
                     (trace st3 @ [Q_get audio_tokens, Decode audio_tokens]) of
                (None, rs, tr) \<Rightarrow> Starved (st3\<lparr>s2c := waiting, dec_resp := rs, trace := tr\<rparr>)
              | (Some pcm, rs, tr) \<Rightarrow>
                  Done (st3\<lparr>s2c := waiting, dec_resp := rs, trace := tr\<rparr>)))"

definition warmup_iter ::
  "'t lm \<Rightarrow> nat \<Rightarrow> ('a::zero, 'f, 't) gw \<Rightarrow> ('a, 'f, 't) gw outcome" where
  "warmup_iter m i st =
     (case warm_encode st of
        Done st2 \<Rightarrow> if i = 0 then Done st2 else warm_decode m st2
      | other \<Rightarrow> other)"

fun warmup_from ::
  "'t lm \<Rightarrow> nat list \<Rightarrow> ('a::zero, 'f, 't) gw \<Rightarrow> ('a, 'f, 't) gw outcome" where
  "warmup_from m [] st = Done st"
| "warmup_from m (i # later) st =
     (case warmup_iter m i st of
        Done st' \<Rightarrow> warmup_from m later st'
      | other \<Rightarrow> other)"

definition full_warmup :: "'t lm \<Rightarrow> ('a::zero, 'f, 't) gw \<Rightarrow> ('a, 'f, 't) gw outcome" where
  "full_warmup m st = warmup_from m [0..<4] st"

subsection \<open>The gateway process up to serving\<close>

definition choose_mimi_file :: "args \<Rightarrow> py_error + file_ref" where
  "choose_mimi_file a =
     (case arg_mimi a of
        Some f \<Rightarrow> Inr (Local_file f)
      | None \<Rightarrow> hf_hub_download (arg_hf_repo a) ''tokenizer-e351c8d8-checkpoint125.safetensors'')"

text \<open>
  \<open>go\<close> up to \<open>site.start()\<close>: the static content is fetched when \<open>--static\<close> is absent,
  then the server listens and the four bridging loops run. The file system is not part of
  the state: the archive is taken to unpack and the directory given to \<open>add_static\<close> to
  exist. (\<open>add_static\<close> raises \<open>ValueError\<close> for a missing directory, before the server
  listens, so the code has no serving run that this leaves out.)
\<close>

definition go :: "args \<Rightarrow> ('a, 'f, 't) gw \<Rightarrow> ('a, 'f, 't) gw outcome" where
  "go a st =
     (case (case arg_static a of
              None \<Rightarrow> hf_hub_download (arg_hf_repo a) ''dist.tgz''
            | Some p \<Rightarrow> Inr (Local_file p)) of
        Inl e \<Rightarrow> Raised e st
      | Inr _ \<Rightarrow> Done (st\<lparr>listening := True, trace := trace st @ [Listen]\<rparr>))"

definition received_text :: string where
  "received_text = ''[CLIENT] received '' @ [CHR 0x27] @ ''{}'' @ [CHR 0x27]
                     @ '' from server, starting...''"

definition web_server ::
  "args \<Rightarrow> 't lm \<Rightarrow> ('a::zero, 'f, 't) gw \<Rightarrow> ('a, 'f, 't) gw outcome" where
  "web_server a m st =
     (case choose_mimi_file a of
        Inl e \<Rightarrow> Raised e st
      | Inr mimi_file \<Rightarrow>
          (let st1 = engine_run m
                       (st\<lparr>input_queue := [], output_queue := [],
                           trace := trace st @ [Construct_codec mimi_file]\<rparr>)
           in case s2c st1 of
                [] \<Rightarrow> Blocked st1
              | start # waiting \<Rightarrow>
                  (case log ''info'' (received_text, fmt_item start) of
                     Inl e \<Rightarrow> Raised e (st1\<lparr>s2c := waiting,
                                            trace := trace st1 @ [Q_get start]\<rparr>)
                   | Inr l \<Rightarrow>
                       (case full_warmup m
                               (st1\<lparr>s2c := waiting,
                                    trace := trace st1 @ [Q_get start, Gw_log l]\<rparr>) of
                          Done st2 \<Rightarrow> go a st2
                        | other \<Rightarrow> other))))"

text \<open>
  Both processes before anything has happened, and \<open>main\<close>: the engine starts and blocks
  in its first \<open>get\<close>, the gateway runs up to serving. What the gateway does is the same for
  every interleaving of the two, since it only meets the engine in blocking \<open>get\<close>s.
\<close>

definition boot ::
  "'f option list \<Rightarrow> 'a list option list \<Rightarrow> ('a, 'f, 't) gw" where
  "boot encs decs =
     \<lparr>c2s = [], s2c = [], eng = Eng_not_started, step_idx = 0, eng_trace = [],
      enc_resp = encs, dec_resp = decs, trace = [], input_queue = [], output_queue = [],
      listening = False, lock = None, sessions = (\<lambda>c. idle_session)\<rparr>"

definition main ::
  "args \<Rightarrow> 't lm \<Rightarrow> 'f option list \<Rightarrow> 'a list option list \<Rightarrow> ('a::zero, 'f, 't) gw outcome" where
  "main a m encs decs = web_server a m (model_server_startup a (boot encs decs))"


section \<open>The gateway while it serves\<close>

text \<open>
  The event loop runs one coroutine at a time, from one \<open>await\<close> to the next. Each such
  stretch is an action. The answers of the opaque collaborators come with the action:
  the message the websocket delivers, the PCM \<open>read_pcm\<close> returns, the bytes
  \<open>read_bytes\<close> returns. Connections are numbered; each number is one call of
  \<open>handle_chat\<close>.
\<close>

datatype 'a action =
    Accept nat
  | Acquire nat
  | Handshake nat
  | Recv nat ws_message
  | Recv_end nat
  | Opus_check nat
  | Opus_body nat "'a list option"
  | Send_check nat
  | Send_body nat "byte list"
  | Another_check nat
  | Another_body nat
  | Release nat
  | Outer_send
  | Outer_recv
  | Send_loop2
  | Recv_loop2
  | Engine_turn

text \<open>
  An action that cannot run now (a handler waiting for the lock, a loop that has ended) is
  \<open>Not_enabled\<close>. An exception in a loop of a session ends that loop only: its task is
  \<open>Crashed\<close>, and the three others go on, since \<open>asyncio.gather\<close> cancels nothing. The
  handler, which waits in \<open>gather\<close>, is resumed with the first such exception, leaves
  \<open>async with lock\<close> and so releases the lock, and ends without its last log line. A loop
  runs whenever its coroutine has been started and has not ended, whatever its handler has
  done since. \<open>Failed\<close> is an exception of \<open>handle_chat\<close>'s own lines outside the loops,
  where only \<open>log\<close> is called. The calls into the websocket and Opus libraries are taken to
  return; \<open>read_pcm\<close> may return \<open>None\<close>.
\<close>

datatype fault = Not_enabled | Failed py_error

definition upd ::
  "nat \<Rightarrow> ('a session \<Rightarrow> 'a session) \<Rightarrow> ('a, 'f, 't) gw \<Rightarrow> ('a, 'f, 't) gw" where
  "upd c f st = st\<lparr>sessions := (sessions st)(c := f (sessions st c))\<rparr>"

definition put_session ::
  "nat \<Rightarrow> py_error + 'a session \<Rightarrow> ('a, 'f, 't) gw \<Rightarrow> fault + ('a, 'f, 't) gw" where
  "put_session c r st =
     (case r of Inl e \<Rightarrow> Inl (Failed e) | Inr s \<Rightarrow> Inr (upd c (\<lambda>_. s) st))"

text \<open>The test \<open>if close: return\<close> at the head of a loop, followed by its sleep.\<close>

definition check_close :: "bool \<Rightarrow> task" where
  "check_close c = (if c then Exited else In_body)"

definition all_exited :: "'a session \<Rightarrow> bool" where
  "all_exited s \<longleftrightarrow>
     opus_task s = Exited \<and> recv_task s = Exited \<and> send_task s = Exited
     \<and> another_task s = Exited"

fun has_crashed :: "task \<Rightarrow> bool" where
  "has_crashed (Crashed _) = True"
| "has_crashed _ = False"

definition crashed :: "'a session \<Rightarrow> bool" where
  "crashed s \<longleftrightarrow>
     has_crashed (opus_task s) \<or> has_crashed (recv_task s) \<or> has_crashed (send_task s)
     \<or> has_crashed (another_task s)"

text \<open>
  \<open>handle_chat\<close>: the log line and \<open>close = False\<close> before the lock; the lock; the Opus
  reader and writer and the handshake inside it; the four loops under \<open>gather\<close>; the release
  when \<open>gather\<close> ends: it returns when all four loops have returned, and then the handler
  logs and returns; it raises as soon as one loop has raised, and then the handler is left
  through \<open>async with\<close> with the others still running.
\<close>

definition do_accept :: "nat \<Rightarrow> ('a, 'f, 't) gw \<Rightarrow> fault + ('a, 'f, 't) gw" where
  "do_accept c st =
     (let s = sessions st c
      in if listening st \<and> phase s = Idle
         then put_session c
                (emit ''info'' (''accepted connection'', F_none)
                   (s\<lparr>close := False, phase := Waiting\<rparr>)) st
         else Inl Not_enabled)"

definition do_acquire :: "nat \<Rightarrow> ('a, 'f, 't) gw \<Rightarrow> fault + ('a, 'f, 't) gw" where
  "do_acquire c st =
     (if phase (sessions st c) = Waiting \<and> lock st = None
      then Inr (upd c (\<lambda>s. s\<lparr>phase := Locked, opus_writer := [], opus_reader := []\<rparr>)
                  (st\<lparr>lock := Some c\<rparr>))
      else Inl Not_enabled)"

definition do_handshake :: "nat \<Rightarrow> ('a, 'f, 't) gw \<Rightarrow> fault + ('a, 'f, 't) gw" where
  "do_handshake c st =
     (if phase (sessions st c) = Locked
      then Inr (upd c (\<lambda>s. s\<lparr>sent := sent s @ [handshake_frame], phase := Streaming,
                             opus_task := At_check, recv_task := In_body,
                             send_task := At_check, another_task := At_check\<rparr>) st)
      else Inl Not_enabled)"

definition do_release :: "nat \<Rightarrow> ('a, 'f, 't) gw \<Rightarrow> fault + ('a, 'f, 't) gw" where
  "do_release c st =
     (let s = sessions st c
      in if phase s = Streaming \<and> all_exited s
         then put_session c
                (emit ''info'' (''done with connection'', F_none) (s\<lparr>phase := Finished\<rparr>))
                (st\<lparr>lock := None\<rparr>)
         else if phase s = Streaming \<and> crashed s
         then Inr (upd c (\<lambda>s. s\<lparr>phase := Aborted\<rparr>) (st\<lparr>lock := None\<rparr>))
         else Inl Not_enabled)"

text \<open>The session's \<open>recv_loop\<close>: one message, or the end of the iteration.\<close>

definition do_recv :: "nat \<Rightarrow> ws_message \<Rightarrow> ('a, 'f, 't) gw \<Rightarrow> fault + ('a, 'f, 't) gw" where
  "do_recv c message st =
     (let s = sessions st c
      in if recv_task s = In_body
         then (case recv_body message s of
                 Inl e \<Rightarrow> Inr (upd c (\<lambda>_. recv_exit (Some e) s) st)
               | Inr (Continue, s') \<Rightarrow> Inr (upd c (\<lambda>_. s') st)
               | Inr (Break, s') \<Rightarrow> Inr (upd c (\<lambda>_. recv_exit None s') st))
         else Inl Not_enabled)"

definition do_recv_end :: "nat \<Rightarrow> ('a, 'f, 't) gw \<Rightarrow> fault + ('a, 'f, 't) gw" where
  "do_recv_end c st =
     (let s = sessions st c
      in if recv_task s = In_body
         then Inr (upd c (\<lambda>_. recv_exit None s) st)
         else Inl Not_enabled)"

text \<open>
  \<open>opus_loop\<close>; \<open>pcm\<close> is what \<open>read_pcm\<close> returned. \<open>None\<close> has no attribute \<open>shape\<close>.
\<close>

definition do_opus_check :: "nat \<Rightarrow> ('a, 'f, 't) gw \<Rightarrow> fault + ('a, 'f, 't) gw" where
  "do_opus_check c st =
     (let s = sessions st c
      in if opus_task s = At_check
         then Inr (upd c (\<lambda>s. s\<lparr>opus_task := check_close (close s)\<rparr>) st)
         else Inl Not_enabled)"

definition do_opus_body ::
  "nat \<Rightarrow> 'a list option \<Rightarrow> ('a, 'f, 't) gw \<Rightarrow> fault + ('a, 'f, 't) gw" where
  "do_opus_body c pcm st =
     (let s = sessions st c
      in if opus_task s = In_body
         then (case pcm of
                 None \<Rightarrow> Inr (upd c (\<lambda>s. s\<lparr>opus_task := Crashed AttributeError\<rparr>) st)
               | Some samples \<Rightarrow>
                   (case opus_poll samples (all_pcm_data s, input_queue st) of
                      (acc, queue) \<Rightarrow>
                        Inr (upd c (\<lambda>s. s\<lparr>all_pcm_data := acc, opus_task := At_check\<rparr>)
                               (st\<lparr>input_queue := queue\<rparr>))))
         else Inl Not_enabled)"

text \<open>The session's \<open>send_loop\<close>; \<open>msg\<close> is what \<open>opus_writer.read_bytes()\<close> returned.\<close>

definition do_send_check :: "nat \<Rightarrow> ('a, 'f, 't) gw \<Rightarrow> fault + ('a, 'f, 't) gw" where
  "do_send_check c st =
     (let s = sessions st c
      in if send_task s = At_check
         then Inr (upd c (\<lambda>s. s\<lparr>send_task := check_close (close s)\<rparr>) st)
         else Inl Not_enabled)"

definition do_send_body :: "nat \<Rightarrow> byte list \<Rightarrow> ('a, 'f, 't) gw \<Rightarrow> fault + ('a, 'f, 't) gw" where
  "do_send_body c msg st =
     (let s = sessions st c
      in if send_task s = In_body
         then Inr (upd c (\<lambda>s. s\<lparr>sent := (if length msg > 0 then sent s @ [audio_frame msg]
                                          else sent s),
                                send_task := At_check\<rparr>) st)
         else Inl Not_enabled)"

text \<open>
  \<open>another_loop\<close>, with its assertion on the shape of the frame, which it has taken from
  the queue by then.
\<close>

definition do_another_check :: "nat \<Rightarrow> ('a, 'f, 't) gw \<Rightarrow> fault + ('a, 'f, 't) gw" where
  "do_another_check c st =
     (let s = sessions st c
      in if another_task s = At_check
         then Inr (upd c (\<lambda>s. s\<lparr>another_task := check_close (close s)\<rparr>) st)
         else Inl Not_enabled)"

definition do_another_body :: "nat \<Rightarrow> ('a, 'f, 't) gw \<Rightarrow> fault + ('a, 'f, 't) gw" where
  "do_another_body c st =
     (let s = sessions st c
      in if another_task s = In_body
         then (case output_queue st of
                 [] \<Rightarrow> Inr (upd c (\<lambda>s. s\<lparr>another_task := At_check\<rparr>) st)
               | pcm_data # waiting \<Rightarrow>
                   (if length pcm_data = 1920
                    then Inr (upd c (\<lambda>s. s\<lparr>opus_writer := opus_writer s @ [pcm_data],
                                           another_task := At_check\<rparr>)
                                (st\<lparr>output_queue := waiting\<rparr>))
                    else Inr (upd c (\<lambda>s. s\<lparr>another_task := Crashed AssertionError\<rparr>)
                                (st\<lparr>output_queue := waiting\<rparr>))))
         else Inl Not_enabled)"

text \<open>
  The four loops \<open>go\<close> starts beside the site: \<open>send_loop\<close>, \<open>recv_loop\<close>,
  \<open>send_loop2\<close> and \<open>recv_loop2\<close> of \<open>web_server\<close>, one turn each.
\<close>

definition do_outer_send :: "('a, 'f, 't) gw \<Rightarrow> fault + ('a, 'f, 't) gw" where
  "do_outer_send st =
     (if listening st
      then (case input_queue st of
              [] \<Rightarrow> Inr (st\<lparr>trace := trace st @ [Sleep 1]\<rparr>)
            | pcm_data # waiting \<Rightarrow>
                Inr (st\<lparr>input_queue := waiting,
                       trace := trace st @ [Sleep 1, Encode pcm_data]\<rparr>))
      else Inl Not_enabled)"

definition do_outer_recv :: "('a, 'f, 't) gw \<Rightarrow> fault + ('a, 'f, 't) gw" where
  "do_outer_recv st =
     (if listening st
      then (case dec_resp st of
              [] \<Rightarrow> Inl Not_enabled
            | None # rs \<Rightarrow>
                Inr (st\<lparr>dec_resp := rs, trace := trace st @ [Get_decoded None, Sleep 1]\<rparr>)
            | Some data # rs \<Rightarrow>
                Inr (st\<lparr>dec_resp := rs, trace := trace st @ [Get_decoded (Some data)],
                       output_queue := output_queue st @ [data]\<rparr>))
      else Inl Not_enabled)"

definition do_send_loop2 :: "('a, 'f, 't) gw \<Rightarrow> fault + ('a, 'f, 't) gw" where
  "do_send_loop2 st =
     (if listening st
      then (case enc_resp st of
              [] \<Rightarrow> Inl Not_enabled
            | None # rs \<Rightarrow>
                Inr (st\<lparr>enc_resp := rs, trace := trace st @ [Get_encoded None, Sleep 1]\<rparr>)
            | Some data # rs \<Rightarrow>
                Inr (st\<lparr>enc_resp := rs,
                       trace := trace st @ [Get_encoded (Some data), Put_c2s data],
                       c2s := c2s st @ [data]\<rparr>))
      else Inl Not_enabled)"

definition do_recv_loop2 :: "('a, 'f, 't) gw \<Rightarrow> fault + ('a, 'f, 't) gw" where
  "do_recv_loop2 st =
     (if listening st
      then (case s2c st of
              [] \<Rightarrow> Inr (st\<lparr>trace := trace st @ [Sleep 1]\<rparr>)
            | audio_tokens # waiting \<Rightarrow>
                Inr (st\<lparr>s2c := waiting,
                       trace := trace st @ [Q_get audio_tokens, Decode audio_tokens]\<rparr>))
      else Inl Not_enabled)"

text \<open>The engine, in its own process, takes one waiting frame.\<close>

definition do_engine_turn :: "'t lm \<Rightarrow> ('a, 'f, 't) gw \<Rightarrow> fault + ('a, 'f, 't) gw" where
  "do_engine_turn m st =
     (case c2s st of
        [] \<Rightarrow> Inl Not_enabled
      | data # waiting \<Rightarrow>
          if eng st = Eng_serving then Inr (model_server_iter m data (st\<lparr>c2s := waiting\<rparr>))
          else Inl Not_enabled)"

fun step :: "'t lm \<Rightarrow> 'a action \<Rightarrow> ('a, 'f, 't) gw \<Rightarrow> fault + ('a, 'f, 't) gw" where
  "step m (Accept c) st = do_accept c st"
| "step m (Acquire c) st = do_acquire c st"
| "step m (Handshake c) st = do_handshake c st"
| "step m (Recv c message) st = do_recv c message st"
| "step m (Recv_end c) st = do_recv_end c st"
| "step m (Opus_check c) st = do_opus_check c st"
| "step m (Opus_body c pcm) st = do_opus_body c pcm st"
| "step m (Send_check c) st = do_send_check c st"
| "step m (Send_body c msg) st = do_send_body c msg st"
| "step m (Another_check c) st = do_another_check c st"
| "step m (Another_body c) st = do_another_body c st"
| "step m (Release c) st = do_release c st"
| "step m Outer_send st = do_outer_send st"
| "step m Outer_recv st = do_outer_recv st"
| "step m Send_loop2 st = do_send_loop2 st"
| "step m Recv_loop2 st = do_recv_loop2 st"
| "step m Engine_turn st = do_engine_turn m st"

fun run :: "'t lm \<Rightarrow> 'a action list \<Rightarrow> ('a, 'f, 't) gw \<Rightarrow> fault + ('a, 'f, 't) gw" where
  "run m [] st = Inr st"
| "run m (a # later) st =
     (case step m a st of Inl e \<Rightarrow> Inl e | Inr st' \<Rightarrow> run m later st')"


section \<open>Notions used to state the properties\<close>

text \<open>The events of a polling loop that gets its frame after \<open>k\<close> empty answers.\<close>

definition enc_polls :: "nat \<Rightarrow> 'f \<Rightarrow> ('a, 'f, 't) gw_event list" where
  "enc_polls k d =
     concat (replicate k [Sleep 10, Get_encoded None]) @ [Sleep 10, Get_encoded (Some d)]"

definition dec_polls :: "nat \<Rightarrow> 'a list \<Rightarrow> ('a, 'f, 't) gw_event list" where
  "dec_polls k p =
     concat (replicate k [Sleep 10, Get_decoded None]) @ [Sleep 10, Get_decoded (Some p)]"

text \<open>
  A priming iteration as the specification words it: a zero-filled frame is encoded,
  \<open>get_encoded\<close> is polled every 10 ms until it gives a frame, the frame is pushed onto the
  client-to-engine channel; after the first iteration, one item is taken from the
  engine-to-client channel, fed to \<open>decode\<close>, and \<open>get_decoded\<close> is polled until it gives PCM.
\<close>

definition priming_encode :: "nat \<times> 'f \<Rightarrow> ('a::zero, 'f, 't) gw_event list" where
  "priming_encode e =
     [Encode (replicate 1920 0)] @ enc_polls (fst e) (snd e) @ [Put_c2s (snd e)]"

definition priming_decode :: "'t s2c_item \<times> nat \<times> 'a list \<Rightarrow> ('a, 'f, 't) gw_event list" where
  "priming_decode d =
     [Q_get (fst d), Decode (fst d)] @ dec_polls (fst (snd d)) (snd (snd d))"

text \<open>What the engine puts on \<open>server_to_client\<close> in its steps \<open>k, ..., k + n - 1\<close>.\<close>

definition emits :: "'t lm \<Rightarrow> nat \<Rightarrow> nat \<Rightarrow> 't s2c_item list" where
  "emits m k n = concat (map (\<lambda>i. put_tokens (snd (gen_step m i))) [k..<k + n])"

text \<open>The recorded answers hold at least \<open>n\<close> frames.\<close>

definition yields :: "nat \<Rightarrow> 'r option list \<Rightarrow> bool" where
  "yields n rs \<longleftrightarrow> n \<le> length (filter (\<lambda>r. r \<noteq> None) rs)"

text \<open>
  Sessions: a handler inside \<open>async with lock\<close>, a loop that has started and not ended,
  a frame that starts with byte 1 and has a payload, and a list of sent frames that is empty
  or starts with the handshake and goes on with such frames only.
\<close>

definition in_session :: "'a session \<Rightarrow> bool" where
  "in_session s \<longleftrightarrow> phase s = Locked \<or> phase s = Streaming"

definition running :: "task \<Rightarrow> bool" where
  "running t \<longleftrightarrow> t = At_check \<or> t = In_body"

definition any_running :: "'a session \<Rightarrow> bool" where
  "any_running s \<longleftrightarrow>
     running (opus_task s) \<or> running (recv_task s) \<or> running (send_task s)
     \<or> running (another_task s)"

definition audio_tagged :: "byte list \<Rightarrow> bool" where
  "audio_tagged f = (case f of [] \<Rightarrow> False | k # p \<Rightarrow> k = 1 \<and> p \<noteq> [])"

definition handshake_first :: "byte list list \<Rightarrow> bool" where
  "handshake_first fs = (case fs of [] \<Rightarrow> True | f # rest \<Rightarrow> f = [0] \<and> list_all audio_tagged rest)"

text \<open>
  The invariant of the serving gateway, for one connection and for all, and the state in
  which no connection has been accepted yet.
\<close>

definition session_ok :: "nat option \<Rightarrow> nat \<Rightarrow> 'a session \<Rightarrow> bool" where
  "session_ok lk c s \<longleftrightarrow>
     (in_session s \<longleftrightarrow> lk = Some c)
   \<and> (any_running s \<longrightarrow> phase s = Streaming \<or> phase s = Aborted)
   \<and> (phase s = Aborted \<longrightarrow> crashed s)
   \<and> (phase s = Finished \<longrightarrow> all_exited s)
   \<and> (phase s = Idle \<or> phase s = Waiting \<or> phase s = Locked \<longrightarrow> sent s = [])
   \<and> (phase s = Streaming \<or> phase s = Finished \<or> phase s = Aborted \<longrightarrow> sent s \<noteq> [])
   \<and> handshake_first (sent s)"

definition gw_inv :: "('a, 'f, 't) gw \<Rightarrow> bool" where
  "gw_inv st \<longleftrightarrow> (\<forall>c. session_ok (lock st) c (sessions st c))"

definition fresh :: "('a, 'f, 't) gw \<Rightarrow> bool" where
  "fresh st \<longleftrightarrow> lock st = None \<and> (\<forall>c. sessions st c = idle_session)"

text \<open>
  For the warmup: the codec has \<open>ne\<close> encoded and \<open>nd\<close> decoded frames to give, the engine
  serves and \<open>t\<close> frames have been put for it so far; what is or will be on
  \<open>server_to_client\<close> once the engine has taken the frames that wait for it; the number of
  frames put for the engine so far.
\<close>

definition primed :: "nat \<Rightarrow> nat \<Rightarrow> nat \<Rightarrow> ('a, 'f, 't) gw \<Rightarrow> bool" where
  "primed ne nd t st \<longleftrightarrow>
     yields ne (enc_resp st) \<and> yields nd (dec_resp st) \<and> eng st = Eng_serving
     \<and> step_idx st + length (c2s st) = t"

definition owed :: "'t lm \<Rightarrow> ('a, 'f, 't) gw \<Rightarrow> 't s2c_item list" where
  "owed m st = s2c st @ emits m (step_idx st) (length (c2s st))"

definition fed :: "('a, 'f, 't) gw \<Rightarrow> nat" where
  "fed st = step_idx st + length (c2s st)"

text \<open>
  The state of both processes when \<open>full_warmup\<close> is called, and the state in which the
  gateway waits for ever because the engine died before it put \<open>start\<close>.
\<close>

definition warm_ready ::
  "file_ref \<Rightarrow> ('f, 't) eng_event list \<Rightarrow> 'f option list \<Rightarrow> 'a list option list
     \<Rightarrow> ('a, 'f, 't) gw" where
  "warm_ready f evs encs decs =
     \<lparr>c2s = [], s2c = [], eng = Eng_serving, step_idx = 0, eng_trace = evs,
      enc_resp = encs, dec_resp = decs,
      trace = [Construct_codec f, Q_get (Ready ''start''),
               Gw_log (colorize ''[Info]'' ''1;34'', received_text, F_str ''start'')],
      input_queue = [], output_queue = [],
      listening = False, lock = None, sessions = (\<lambda>c. idle_session)\<rparr>"

definition stalled ::
  "file_ref \<Rightarrow> py_error \<Rightarrow> 'f option list \<Rightarrow> 'a list option list \<Rightarrow> ('a, 'f, 't) gw" where
  "stalled f e encs decs =
     \<lparr>c2s = [], s2c = [], eng = Eng_dead e, step_idx = 0, eng_trace = [],
      enc_resp = encs, dec_resp = decs, trace = [Construct_codec f],
      input_queue = [], output_queue = [],
      listening = False, lock = None, sessions = (\<lambda>c. idle_session)\<rparr>"

text \<open>
  What a warmup may do: no readiness item taken or decoded, no listening. \<open>warm_step\<close>
  relates a state to a later one of the same warmup.
\<close>

fun warm_event :: "('a, 'f, 't) gw_event \<Rightarrow> bool" where
  "warm_event (Q_get (Tokens _)) = True"
| "warm_event (Decode (Tokens _)) = True"
| "warm_event (Sleep _) = True"
| "warm_event (Encode _) = True"
| "warm_event (Get_encoded _) = True"
| "warm_event (Put_c2s _) = True"
| "warm_event (Get_decoded _) = True"
| "warm_event _ = False"

fun is_tokens :: "'t s2c_item \<Rightarrow> bool" where
  "is_tokens (Tokens _) = True"
| "is_tokens (Ready _) = False"

definition warm_step :: "('a, 'f, 't) gw \<Rightarrow> ('a, 'f, 't) gw \<Rightarrow> bool" where
  "warm_step st st' \<longleftrightarrow>
     (\<exists>new. trace st' = trace st @ new \<and> list_all warm_event new)
   \<and> prefix (eng_trace st) (eng_trace st')
   \<and> (list_all is_tokens (s2c st) \<longrightarrow> list_all is_tokens (s2c st'))
   \<and> listening st' = listening st \<and> lock st' = lock st \<and> sessions st' = sessions st"

text \<open>The event of taking a readiness item from the channel; a start that returned.\<close>

fun is_ready_get :: "('a, 'f, 't) gw_event \<Rightarrow> bool" where
  "is_ready_get (Q_get (Ready _)) = True"
| "is_ready_get _ = False"


text \<open>
  Every frame waiting for the encoder or passed to it has 1920 samples, and no session's
  buffer holds a whole frame.
\<close>

definition frames_ok :: "('a, 'f, 't) gw \<Rightarrow> bool" where
  "frames_ok st \<longleftrightarrow>
     (\<forall>f\<in>set (input_queue st). length f = 1920)
   \<and> (\<forall>x. Encode x \<in> set (trace st) \<longrightarrow> length x = 1920)
   \<and> (\<forall>c. length (buffered (all_pcm_data (sessions st c))) < 1920)"

subsection \<open>Concrete inputs\<close>

text \<open>
  Two engines: one that emits nothing at its first step and a frame at every later one, and
  one that emits a frame at every step. Arguments that name every file, answers of the codec
  with some empty polls, the state in which the warmup starts, and short runs of the serving
  gateway.
\<close>

definition demo_lm :: "nat lm" where
  "demo_lm = \<lparr>gen_step = (\<lambda>k. if k = 0 then (0, None) else (5, Some k)),
               id_to_piece = (\<lambda>t. [0x2581, 72])\<rparr>"


definition demo_args :: args where
  "demo_args = \<lparr>arg_tokenizer = Some ''tokenizer.model'', arg_model = Some ''model.safetensors'',
                 arg_mimi = Some ''mimi.safetensors'', arg_quantized = None,
                 arg_hf_repo = Some '''', arg_static = Some ''none''\<rparr>"

definition demo_encs :: "nat option list" where
  "demo_encs = [None, Some 100, Some 101, None, Some 102, Some 103]"

definition demo_decs :: "nat list option list" where
  "demo_decs = [Some [1], None, Some [2], Some [3], Some (replicate 1920 7)]"

definition demo_warm :: "(nat, nat, nat) gw" where
  "demo_warm = warm_ready (Local_file ''mimi.safetensors'') [] demo_encs demo_decs"


definition demo_serving :: "(nat, nat, nat) gw" where
  "demo_serving = (boot [] [])\<lparr>listening := True\<rparr>"

definition demo_acts :: "nat action list" where
  "demo_acts = [Accept 0, Accept 1, Acquire 0, Handshake 0, Send_check 0, Send_body 0 [9, 9]]"


definition demo_feed_acts :: "nat action list" where
  "demo_feed_acts = [Accept 0, Acquire 0, Handshake 0, Opus_check 0,
                     Opus_body 0 (Some (replicate 2000 5)), Outer_send]"





section \<open>Properties of the wire frames and of the inbound reader\<close>

lemma say_simps:
  "say ''warning'' msg fl s = Inr (fl, s\<lparr>printed := printed s @ [(colorize ''[Warn]'' ''1;31'', msg)]\<rparr>)"
  "say ''info'' msg fl s = Inr (fl, s\<lparr>printed := printed s @ [(colorize ''[Info]'' ''1;34'', msg)]\<rparr>)"
  "say ''error'' msg fl s = Inr (fl, s\<lparr>printed := printed s @ [(colorize ''[Err ]'' ''1;31'', msg)]\<rparr>)"
  by (simp_all add: say_def emit_def log_def)

lemma parse_frame_Cons: "parse_frame (k # p) = Inr (k, p)"
  by (simp add: parse_frame_def index0_def)

lemma recv_body_no_raise: "recv_body m s \<noteq> Inl e"
  by (auto simp: recv_body_def say_simps parse_frame_def index0_def
           split: ws_data.splits list.splits)

text \<open>
  C6. A frame built as the byte 1 followed by a payload \<open>p\<close> parses back to kind 1 and
  payload \<open>p\<close>; the inbound reader, given that frame in a binary message, feeds exactly
  \<open>p\<close> to the Opus decoder.
\<close>

theorem frame_round_trip:
  "parse_frame (audio_frame p) = Inr (1, p) \<and>
   recv_body \<lparr>mtype = BINARY, mdata = Bytes (audio_frame p)\<rparr> s
     = Inr (Continue, s\<lparr>opus_reader := opus_reader s @ [p]\<rparr>)"
  by (simp add: recv_body_def audio_frame_def parse_frame_Cons)

text \<open>
  C7. A message that is neither binary nor an ERROR or CLOSED event is logged as an error and
  dropped; a binary message whose first byte is not 1 is logged as a warning and dropped. In
  both cases the loop goes on to the next message and the session is unchanged but for the
  printed line: the closed flag is not set and nothing is fed to the Opus decoder. The body
  never sets the closed flag, and it leaves the loop exactly on an ERROR or CLOSED message.
  The flag is set by the \<open>finally\<close> block alone, which runs when the loop is left or when
  the websocket ends the iteration (as it does once the connection is closing).
\<close>

theorem recv_drops_bad:
  "(mtype m \<notin> {ERROR, CLOSED, BINARY} \<longrightarrow>
      recv_body m s = Inr (Continue, s\<lparr>printed := printed s @
         [(colorize ''[Err ]'' ''1;31'', ''unexpected message type '', F_type (mtype m))]\<rparr>))
 \<and> (mtype m = BINARY \<and> mdata m = Bytes (k # p) \<and> k \<noteq> 1 \<longrightarrow>
      recv_body m s = Inr (Continue, s\<lparr>printed := printed s @
         [(colorize ''[Warn]'' ''1;31'', ''unknown message kind '', F_kind k)]\<rparr>))
 \<and> (\<forall>fl s'. recv_body m s = Inr (fl, s') \<longrightarrow>
       close s' = close s \<and> (fl = Break \<longleftrightarrow> mtype m \<in> {ERROR, CLOSED}))"
  by (auto simp: recv_body_def say_simps parse_frame_def index0_def
           split: ws_data.splits list.splits if_splits)

theorem recv_drops_bad_witness:
  "recv_body \<lparr>mtype = TEXT, mdata = Str ''hello''\<rparr> (idle_session :: nat session)
     = Inr (Continue, idle_session\<lparr>printed :=
         [(colorize ''[Err ]'' ''1;31'', ''unexpected message type '', F_type TEXT)]\<rparr>)
   \<and> recv_body \<lparr>mtype = BINARY, mdata = Bytes [2, 7]\<rparr> (idle_session :: nat session)
     = Inr (Continue, idle_session\<lparr>printed :=
         [(colorize ''[Warn]'' ''1;31'', ''unknown message kind '', F_kind 2)]\<rparr>)"
  using recv_drops_bad[where m = "\<lparr>mtype = TEXT, mdata = Str ''hello''\<rparr>"
                         and s = "idle_session :: nat session"]
        recv_drops_bad[where m = "\<lparr>mtype = BINARY, mdata = Bytes [2, 7]\<rparr>"
                         and k = 2 and p = "[7]" and s = "idle_session :: nat session"]
  by (simp add: idle_session_def)

text \<open>
  C9. An empty binary message is answered by the warning \<open>empty message\<close> and nothing else:
  the loop continues with the session otherwise unchanged. The body raises on no message at
  all, so the read of the kind byte is never reached with an empty message.
\<close>

theorem recv_empty_safe:
  "recv_body \<lparr>mtype = BINARY, mdata = Bytes []\<rparr> s
     = Inr (Continue, s\<lparr>printed := printed s @
         [(colorize ''[Warn]'' ''1;31'', ''empty message'', F_none)]\<rparr>)
   \<and> (\<forall>m e. recv_body m s \<noteq> Inl e)
   \<and> index0 ([] :: byte list) = Inl IndexError"
  by (simp add: recv_body_no_raise) (simp add: recv_body_def say_simps index0_def)

section \<open>Properties of the PCM assembler\<close>

lemma slice_frames_props:
  "slice_frames acc queue = (rest, queue') \<Longrightarrow>
     length rest < FRAME_SIZE \<and>
     (\<exists>new. queue' = queue @ new \<and> (\<forall>f\<in>set new. length f = FRAME_SIZE)
            \<and> concat new @ rest = acc)"
proof (induction acc queue rule: slice_frames.induct)
  case (1 acc queue)
  show ?case
  proof (cases "length acc \<ge> FRAME_SIZE")
    case True
    with "1.prems"
    have "slice_frames (drop FRAME_SIZE acc) (queue @ [take FRAME_SIZE acc]) = (rest, queue')"
      by (subst (asm) slice_frames.simps) simp
    from "1.IH"[OF True this] obtain new where
      n: "length rest < FRAME_SIZE" "queue' = (queue @ [take FRAME_SIZE acc]) @ new"
         "\<forall>f\<in>set new. length f = FRAME_SIZE" "concat new @ rest = drop FRAME_SIZE acc"
      by blast
    let ?new = "take FRAME_SIZE acc # new"
    have "queue' = queue @ ?new" using n by simp
    moreover have "\<forall>f\<in>set ?new. length f = FRAME_SIZE" using n True by simp
    moreover have "concat ?new @ rest = acc" using n by simp
    ultimately show ?thesis using n(1) by blast
  next
    case False
    with "1.prems" have "rest = acc" "queue' = queue"
      by (subst (asm) slice_frames.simps, simp)+
    with False show ?thesis by simp
  qed
qed

lemma opus_poll_props:
  assumes "opus_poll pcm (acc, queue) = (acc', queue')"
  shows "\<exists>new. queue' = queue @ new \<and> (\<forall>f\<in>set new. length f = FRAME_SIZE)
           \<and> concat new @ buffered acc' = buffered acc @ pcm
           \<and> (length (buffered acc) < FRAME_SIZE \<longrightarrow> length (buffered acc') < FRAME_SIZE)"
proof (cases "length pcm = 0")
  case True
  with assms show ?thesis by (simp add: opus_poll_def)
next
  case False
  obtain rest q where sl: "slice_frames (buffered acc @ pcm) queue = (rest, q)"
    by (cases "slice_frames (buffered acc @ pcm) queue")
  have j: "(case acc of None \<Rightarrow> pcm | Some a \<Rightarrow> a @ pcm) = buffered acc @ pcm"
    by (simp add: buffered_def split: option.splits)
  from assms False sl have "acc' = Some rest" "queue' = q"
    by (simp_all add: opus_poll_def j)
  with slice_frames_props[OF sl] show ?thesis by (auto simp: buffered_def)
qed

lemma opus_polls_props:
  "opus_polls polls (acc, queue) = (acc', queue') \<Longrightarrow>
     \<exists>new. queue' = queue @ new \<and> (\<forall>f\<in>set new. length f = FRAME_SIZE)
           \<and> concat new @ buffered acc' = buffered acc @ concat polls
           \<and> (length (buffered acc) < FRAME_SIZE \<longrightarrow> length (buffered acc') < FRAME_SIZE)"
proof (induction polls arbitrary: acc queue)
  case Nil
  then show ?case by simp
next
  case (Cons pcm polls)
  obtain a1 q1 where p: "opus_poll pcm (acc, queue) = (a1, q1)"
    by (cases "opus_poll pcm (acc, queue)")
  from opus_poll_props[OF p] obtain n1 where
    n1: "q1 = queue @ n1" "\<forall>f\<in>set n1. length f = FRAME_SIZE"
        "concat n1 @ buffered a1 = buffered acc @ pcm"
        "length (buffered acc) < FRAME_SIZE \<longrightarrow> length (buffered a1) < FRAME_SIZE"
    by blast
  from Cons.prems p have "opus_polls polls (a1, q1) = (acc', queue')" by simp
  from Cons.IH[OF this] obtain n2 where
    n2: "queue' = q1 @ n2" "\<forall>f\<in>set n2. length f = FRAME_SIZE"
        "concat n2 @ buffered acc' = buffered a1 @ concat polls"
        "length (buffered a1) < FRAME_SIZE \<longrightarrow> length (buffered acc') < FRAME_SIZE"
    by blast
  have "queue' = queue @ (n1 @ n2)" using n1 n2 by simp
  moreover have "\<forall>f\<in>set (n1 @ n2). length f = FRAME_SIZE" using n1 n2 by auto
  moreover have "concat (n1 @ n2) @ buffered acc' = buffered acc @ concat (pcm # polls)"
    using n1(3) n2(3) by (metis append.assoc concat.simps(2) concat_append)
  ultimately show ?case using n1(4) n2(4) by blast
qed

section \<open>Properties of the engine and of the warmup\<close>

lemma token_log_Inr:
  "token_log m t = Inr (if t \<noteq> 0 \<and> t \<noteq> 3
     then [(colorize ''[Info]'' ''1;34'', ''token '',
            F_piece (replace_char 0x2581 0x20 (id_to_piece m t)))] else [])"
  by (simp add: token_log_def bind_err_def log_def)

lemma model_server_iter_eq:
  "model_server_iter m data st =
     st\<lparr>step_idx := Suc (step_idx st),
        eng_trace := eng_trace st @ [E_get data, E_step (step_idx st)]
           @ map E_log (if fst (gen_step m (step_idx st)) \<noteq> 0 \<and> fst (gen_step m (step_idx st)) \<noteq> 3
               then [(colorize ''[Info]'' ''1;34'', ''token '',
                      F_piece (replace_char 0x2581 0x20 (id_to_piece m (fst (gen_step m (step_idx st))))))]
               else [])
           @ map E_put (put_tokens (snd (gen_step m (step_idx st)))),
        s2c := s2c st @ put_tokens (snd (gen_step m (step_idx st)))\<rparr>"
  by (cases "gen_step m (step_idx st)") (simp add: model_server_iter_def token_log_Inr)

lemma emits_0 [simp]: "emits m k 0 = []"
  by (simp add: emits_def)

lemma emits_Suc_front: "emits m k (Suc n) = put_tokens (snd (gen_step m k)) @ emits m (Suc k) n"
proof -
  have h: "[k..<k + Suc n] = k # [Suc k..<Suc k + n]"
    by (simp add: upt_conv_Cons del: upt_Suc)
  show ?thesis unfolding emits_def h by simp
qed

lemma emits_add: "emits m k (a + b) = emits m k a @ emits m (k + a) b"
proof -
  have "[k..<k + a + b] = [k..<k + a] @ [k + a..<k + a + b]"
    by (rule upt_add_eq_append) simp
  then show ?thesis by (simp add: emits_def add.assoc)
qed

lemma emits_1 [simp]:
  "emits m k 1 = put_tokens (snd (gen_step m k))"
  "emits m k (Suc 0) = put_tokens (snd (gen_step m k))"
  by (simp_all add: emits_def)

text \<open>The engine loop on a serving engine.\<close>

lemma loop_serving:
  "eng st = Eng_serving \<Longrightarrow>
     c2s (model_server_loop m fs st) = (if fs = [] then c2s st else [])
   \<and> step_idx (model_server_loop m fs st) = step_idx st + length fs
   \<and> s2c (model_server_loop m fs st) = s2c st @ emits m (step_idx st) (length fs)
   \<and> eng (model_server_loop m fs st) = Eng_serving"
proof (induction fs arbitrary: st)
  case Nil
  then show ?case by simp
next
  case (Cons d fs)
  let ?st1 = "model_server_iter m d (st\<lparr>c2s := fs\<rparr>)"
  have e1: "eng ?st1 = Eng_serving" using Cons.prems by (simp add: model_server_iter_eq)
  have l: "model_server_loop m (d # fs) st = model_server_loop m fs ?st1"
    using Cons.prems by simp
  from Cons.IH[OF e1] show ?case
    unfolding l by (simp add: model_server_iter_eq emits_Suc_front)
qed

lemma loop_gateway_fields:
  "trace (model_server_loop m fs st) = trace st
   \<and> enc_resp (model_server_loop m fs st) = enc_resp st
   \<and> dec_resp (model_server_loop m fs st) = dec_resp st
   \<and> input_queue (model_server_loop m fs st) = input_queue st
   \<and> output_queue (model_server_loop m fs st) = output_queue st
   \<and> listening (model_server_loop m fs st) = listening st
   \<and> lock (model_server_loop m fs st) = lock st
   \<and> sessions (model_server_loop m fs st) = sessions st"
proof (induction fs arbitrary: st)
  case Nil
  then show ?case by simp
next
  case (Cons d fs)
  show ?case
  proof (cases "eng st = Eng_serving")
    case True
    then have l: "model_server_loop m (d # fs) st
                  = model_server_loop m fs (model_server_iter m d (st\<lparr>c2s := fs\<rparr>))"
      by simp
    show ?thesis unfolding l
      using Cons.IH[of "model_server_iter m d (st\<lparr>c2s := fs\<rparr>)"]
      by (simp add: model_server_iter_eq)
  next
    case False
    then show ?thesis by simp
  qed
qed

lemma loop_not_serving:
  "eng st \<noteq> Eng_serving \<Longrightarrow> model_server_loop m fs st = st"
  by (cases fs) simp_all

lemma run_keeps [simp]:
  "trace (engine_run m st) = trace st"
  "enc_resp (engine_run m st) = enc_resp st"
  "dec_resp (engine_run m st) = dec_resp st"
  "input_queue (engine_run m st) = input_queue st"
  "output_queue (engine_run m st) = output_queue st"
  "listening (engine_run m st) = listening st"
  "lock (engine_run m st) = lock st"
  "sessions (engine_run m st) = sessions st"
  using loop_gateway_fields[of m "c2s st" st] by (simp_all add: engine_run_def)

lemma engine_run_serving:
  assumes "eng st = Eng_serving"
  shows "c2s (engine_run m st) = []"
    and "step_idx (engine_run m st) = step_idx st + length (c2s st)"
    and "s2c (engine_run m st) = s2c st @ emits m (step_idx st) (length (c2s st))"
    and "eng (engine_run m st) = Eng_serving"
  using loop_serving[OF assms, of m "c2s st"] by (simp_all add: engine_run_def)

text \<open>The polling loops.\<close>

lemma poll_encoded_shape:
  "warm_poll_encoded rs tr = (Some d, rs', tr') \<Longrightarrow>
     \<exists>k. tr' = tr @ enc_polls k d \<and> rs = replicate k None @ Some d # rs'"
proof (induction rs arbitrary: tr)
  case Nil
  then show ?case by simp
next
  case (Cons r rs)
  show ?case
  proof (cases r)
    case None
    with Cons.prems have "warm_poll_encoded rs (tr @ [Sleep 10, Get_encoded None]) = (Some d, rs', tr')"
      by simp
    from Cons.IH[OF this] obtain k where
      k: "tr' = (tr @ [Sleep 10, Get_encoded None]) @ enc_polls k d" "rs = replicate k None @ Some d # rs'"
      by blast
    have "tr' = tr @ enc_polls (Suc k) d" using k(1) by (simp add: enc_polls_def)
    moreover have "r # rs = replicate (Suc k) None @ Some d # rs'" using k(2) None by simp
    ultimately show ?thesis by blast
  next
    case (Some x)
    with Cons.prems have "tr' = tr @ enc_polls 0 d \<and> r # rs = replicate 0 None @ Some d # rs'"
      by (auto simp: enc_polls_def)
    then show ?thesis by blast
  qed
qed

lemma poll_decoded_shape:
  "warm_poll_decoded rs tr = (Some d, rs', tr') \<Longrightarrow>
     \<exists>k. tr' = tr @ dec_polls k d \<and> rs = replicate k None @ Some d # rs'"
proof (induction rs arbitrary: tr)
  case Nil
  then show ?case by simp
next
  case (Cons r rs)
  show ?case
  proof (cases r)
    case None
    with Cons.prems have "warm_poll_decoded rs (tr @ [Sleep 10, Get_decoded None]) = (Some d, rs', tr')"
      by simp
    from Cons.IH[OF this] obtain k where
      k: "tr' = (tr @ [Sleep 10, Get_decoded None]) @ dec_polls k d" "rs = replicate k None @ Some d # rs'"
      by blast
    have "tr' = tr @ dec_polls (Suc k) d" using k(1) by (simp add: dec_polls_def)
    moreover have "r # rs = replicate (Suc k) None @ Some d # rs'" using k(2) None by simp
    ultimately show ?thesis by blast
  next
    case (Some x)
    with Cons.prems have "tr' = tr @ dec_polls 0 d \<and> r # rs = replicate 0 None @ Some d # rs'"
      by (auto simp: dec_polls_def)
    then show ?thesis by blast
  qed
qed

text \<open>The two halves of a warmup turn.\<close>

lemma warm_encode_Done:
  assumes "warm_encode st = Done st'"
  shows "\<exists>k d rs. enc_resp st = replicate k None @ Some d # rs
           \<and> st' = st\<lparr>enc_resp := rs, trace := trace st @ priming_encode (k, d),
                       c2s := c2s st @ [d]\<rparr>"
proof -
  obtain r rs tr where
    p: "warm_poll_encoded (enc_resp st) (trace st @ [Encode (replicate 1920 0)]) = (r, rs, tr)"
    by (metis prod_cases3)
  from assms p obtain d where r: "r = Some d"
    by (cases r) (simp_all add: warm_encode_def)
  from assms p r have st': "st' = st\<lparr>enc_resp := rs, trace := tr @ [Put_c2s d], c2s := c2s st @ [d]\<rparr>"
    by (simp add: warm_encode_def)
  from poll_encoded_shape[OF p[unfolded r]] obtain k where
    k: "tr = (trace st @ [Encode (replicate 1920 0)]) @ enc_polls k d"
       "enc_resp st = replicate k None @ Some d # rs"
    by blast
  have "tr @ [Put_c2s d] = trace st @ priming_encode (k, d)"
    using k(1) by (simp add: priming_encode_def)
  with st' k(2) show ?thesis by auto
qed

lemma warm_decode_Done:
  assumes "warm_decode m st = Done st'"
  shows "\<exists>x w j p rs. s2c (engine_run m st) = x # w
           \<and> dec_resp st = replicate j None @ Some p # rs
           \<and> st' = (engine_run m st)\<lparr>s2c := w, dec_resp := rs,
                                      trace := trace st @ priming_decode (x, j, p)\<rparr>"
proof -
  let ?st3 = "engine_run m st"
  from assms obtain x w where xw: "s2c ?st3 = x # w"
    by (cases "s2c ?st3") (simp_all add: warm_decode_def Let_def)
  obtain r rs tr where
    p: "warm_poll_decoded (dec_resp st) (trace st @ [Q_get x, Decode x]) = (r, rs, tr)"
    by (metis prod_cases3)
  from assms xw p obtain pcm where r: "r = Some pcm"
    by (cases r) (simp_all add: warm_decode_def Let_def)
  from assms xw p r have st': "st' = ?st3\<lparr>s2c := w, dec_resp := rs, trace := tr\<rparr>"
    by (simp add: warm_decode_def Let_def)
  from poll_decoded_shape[OF p[unfolded r]] obtain j where
    j: "tr = (trace st @ [Q_get x, Decode x]) @ dec_polls j pcm"
       "dec_resp st = replicate j None @ Some pcm # rs"
    by blast
  have "tr = trace st @ priming_decode (x, j, pcm)"
    using j(1) by (simp add: priming_decode_def)
  with st' xw j(2) show ?thesis by auto
qed

lemma warmup_iter_Done:
  assumes "warmup_iter m i st = Done st'"
  shows "\<exists>st2. warm_encode st = Done st2
            \<and> (if i = 0 then st' = st2 else warm_decode m st2 = Done st')"
  using assms by (cases "warm_encode st") (auto simp: warmup_iter_def split: if_splits)

text \<open>Shape of the whole warmup.\<close>

lemma warmup_iter_first:
  assumes "warmup_iter m 0 st = Done st'"
  shows "\<exists>e. trace st' = trace st @ priming_encode e"
proof -
  from warmup_iter_Done[OF assms] have "warm_encode st = Done st'" by auto
  from warm_encode_Done[OF this] obtain k d rs where
    "st' = st\<lparr>enc_resp := rs, trace := trace st @ priming_encode (k, d), c2s := c2s st @ [d]\<rparr>"
    by blast
  then have "trace st' = trace st @ priming_encode (k, d)" by simp
  then show ?thesis by blast
qed

lemma warmup_iter_later:
  assumes "warmup_iter m i st = Done st'" and "i \<noteq> 0"
  shows "\<exists>e d. trace st' = trace st @ priming_encode e @ priming_decode d"
proof -
  from warmup_iter_Done[OF assms(1)] assms(2) obtain st2 where
    a: "warm_encode st = Done st2" and b: "warm_decode m st2 = Done st'" by auto
  from warm_encode_Done[OF a] obtain k d rs where
    "st2 = st\<lparr>enc_resp := rs, trace := trace st @ priming_encode (k, d), c2s := c2s st @ [d]\<rparr>"
    by blast
  then have e: "trace st2 = trace st @ priming_encode (k, d)" by simp
  from warm_decode_Done[OF b] obtain x w j p rs' where
    "st' = (engine_run m st2)\<lparr>s2c := w, dec_resp := rs',
                                 trace := trace st2 @ priming_decode (x, j, p)\<rparr>"
    by blast
  then have "trace st' = trace st2 @ priming_decode (x, j, p)" by simp
  with e have "trace st' = trace st @ priming_encode (k, d) @ priming_decode (x, j, p)" by simp
  then show ?thesis by blast
qed

lemma warmup_from_Cons_Done:
  assumes "warmup_from m (i # later) st = Done st'"
  obtains st1 where "warmup_iter m i st = Done st1" "warmup_from m later st1 = Done st'"
  using assms by (cases "warmup_iter m i st") simp_all

lemma full_warmup_steps:
  assumes "full_warmup m st = Done st'"
  obtains s1 s2 s3 where
    "warmup_iter m 0 st = Done s1" "warmup_iter m 1 s1 = Done s2"
    "warmup_iter m 2 s2 = Done s3" "warmup_iter m 3 s3 = Done st'"
proof -
  from assms have w: "warmup_from m [0, 1, 2, 3] st = Done st'"
    by (simp add: full_warmup_def upt_rec numeral_eq_Suc)
  from warmup_from_Cons_Done[OF w] obtain s1 where
    a: "warmup_iter m 0 st = Done s1" and w1: "warmup_from m [1, 2, 3] s1 = Done st'" by blast
  from warmup_from_Cons_Done[OF w1] obtain s2 where
    b: "warmup_iter m 1 s1 = Done s2" and w2: "warmup_from m [2, 3] s2 = Done st'" by blast
  from warmup_from_Cons_Done[OF w2] obtain s3 where
    c: "warmup_iter m 2 s2 = Done s3" and w3: "warmup_from m [3] s3 = Done st'" by blast
  from warmup_from_Cons_Done[OF w3] obtain s4 where
    d: "warmup_iter m 3 s3 = Done s4" and w4: "warmup_from m [] s4 = Done st'" by blast
  from w4 have "s4 = st'" by simp
  with a b c d that show thesis by blast
qed

lemma full_warmup_shape:
  assumes "full_warmup m st = Done st'"
  shows "\<exists>e0 e1 d1 e2 d2 e3 d3.
           trace st' = trace st @ priming_encode e0
                        @ priming_encode e1 @ priming_decode d1
                        @ priming_encode e2 @ priming_decode d2
                        @ priming_encode e3 @ priming_decode d3"
proof -
  from full_warmup_steps[OF assms] obtain s1 s2 s3 where
    s: "warmup_iter m 0 st = Done s1" "warmup_iter m 1 s1 = Done s2"
       "warmup_iter m 2 s2 = Done s3" "warmup_iter m 3 s3 = Done st'" by blast
  from warmup_iter_first[OF s(1)] obtain e0 where 0: "trace s1 = trace st @ priming_encode e0" by blast
  from warmup_iter_later[OF s(2)] obtain e1 d1 where
    1: "trace s2 = trace s1 @ priming_encode e1 @ priming_decode d1" by auto
  from warmup_iter_later[OF s(3)] obtain e2 d2 where
    2: "trace s3 = trace s2 @ priming_encode e2 @ priming_decode d2" by auto
  from warmup_iter_later[OF s(4)] obtain e3 d3 where
    3: "trace st' = trace s3 @ priming_encode e3 @ priming_decode d3" by auto
  from 0 1 2 3 have "trace st' = trace st @ priming_encode e0
                        @ priming_encode e1 @ priming_decode d1
                        @ priming_encode e2 @ priming_decode d2
                        @ priming_encode e3 @ priming_decode d3" by simp
  then show ?thesis by blast
qed

text \<open>The warmup returns when the codec and the engine answer.\<close>

lemma yields_poll_encoded:
  "yields (Suc n) rs \<Longrightarrow>
     \<exists>d rs' tr'. warm_poll_encoded rs tr = (Some d, rs', tr') \<and> yields n rs'"
proof (induction rs arbitrary: tr)
  case Nil
  then show ?case by (simp add: yields_def)
next
  case (Cons r rs)
  show ?case
  proof (cases r)
    case None
    with Cons.prems have "yields (Suc n) rs" by (simp add: yields_def)
    from Cons.IH[OF this] None show ?thesis by simp
  next
    case (Some d)
    with Cons.prems show ?thesis by (simp add: yields_def)
  qed
qed

lemma yields_poll_decoded:
  "yields (Suc n) rs \<Longrightarrow>
     \<exists>d rs' tr'. warm_poll_decoded rs tr = (Some d, rs', tr') \<and> yields n rs'"
proof (induction rs arbitrary: tr)
  case Nil
  then show ?case by (simp add: yields_def)
next
  case (Cons r rs)
  show ?case
  proof (cases r)
    case None
    with Cons.prems have "yields (Suc n) rs" by (simp add: yields_def)
    from Cons.IH[OF this] None show ?thesis by simp
  next
    case (Some d)
    with Cons.prems show ?thesis by (simp add: yields_def)
  qed
qed

lemma warm_encode_returns:
  assumes "primed (Suc ne) nd t st"
  shows "\<exists>st'. warm_encode st = Done st' \<and> primed ne nd (Suc t) st' \<and> c2s st' \<noteq> []"
proof -
  from assms have y: "yields (Suc ne) (enc_resp st)" by (simp add: primed_def)
  from yields_poll_encoded[OF y, of "trace st @ [Encode (replicate 1920 0)]"]
  obtain d rs' tr' where
    "warm_poll_encoded (enc_resp st) (trace st @ [Encode (replicate 1920 0)]) = (Some d, rs', tr')"
    "yields ne rs'" by blast
  with assms show ?thesis by (simp add: warm_encode_def primed_def)
qed

lemma warm_decode_returns:
  assumes "primed ne (Suc nd) (Suc t) st" and "snd (gen_step m t) \<noteq> None" and "c2s st \<noteq> []"
  shows "\<exists>st'. warm_decode m st = Done st' \<and> primed ne nd (Suc t) st'"
proof -
  from assms(1) have sv: "eng st = Eng_serving" and y: "yields (Suc nd) (dec_resp st)"
    and t: "step_idx st + length (c2s st) = Suc t" and ye: "yields ne (enc_resp st)"
    by (simp_all add: primed_def)
  note er = engine_run_serving[OF sv, of m]
  from t assms(3) obtain n where n: "length (c2s st) = Suc n" "step_idx st + n = t"
    by (cases "length (c2s st)") auto
  have "emits m (step_idx st) (length (c2s st))
          = emits m (step_idx st) n @ put_tokens (snd (gen_step m t))"
    using n emits_add[of m "step_idx st" n 1] by simp
  with assms(2) have "s2c (engine_run m st) \<noteq> []"
    by (auto simp: er(3) put_tokens_def)
  then obtain x w where xw: "s2c (engine_run m st) = x # w"
    by (cases "s2c (engine_run m st)") auto
  from yields_poll_decoded[OF y, of "trace st @ [Q_get x, Decode x]"]
  obtain d rs' tr' where
    "warm_poll_decoded (dec_resp st) (trace st @ [Q_get x, Decode x]) = (Some d, rs', tr')"
    "yields nd rs'" by blast
  with xw ye t show ?thesis by (simp add: warm_decode_def primed_def Let_def er)
qed

lemma warmup_iter_returns_first:
  assumes "primed (Suc ne) nd t st"
  shows "\<exists>st'. warmup_iter m 0 st = Done st' \<and> primed ne nd (Suc t) st'"
  using warm_encode_returns[OF assms] by (auto simp: warmup_iter_def)

lemma warmup_iter_returns_later:
  assumes "primed (Suc ne) (Suc nd) t st" and "snd (gen_step m t) \<noteq> None" and "i \<noteq> 0"
  shows "\<exists>st'. warmup_iter m i st = Done st' \<and> primed ne nd (Suc t) st'"
proof -
  from warm_encode_returns[OF assms(1)] obtain st2 where
    a: "warm_encode st = Done st2" and p: "primed ne (Suc nd) (Suc t) st2"
    and ne: "c2s st2 \<noteq> []" by blast
  from warm_decode_returns[OF p assms(2) ne] obtain st' where
    "warm_decode m st2 = Done st'" "primed ne nd (Suc t) st'" by blast
  with a assms(3) show ?thesis by (auto simp: warmup_iter_def)
qed

lemma full_warmup_returns:
  assumes "primed 4 3 t st"
    and "snd (gen_step m (Suc t)) \<noteq> None" and "snd (gen_step m (Suc (Suc t))) \<noteq> None"
    and "snd (gen_step m (Suc (Suc (Suc t)))) \<noteq> None"
  shows "\<exists>st'. full_warmup m st = Done st'"
proof -
  have p: "primed (Suc 3) 3 t st" using assms(1) by (simp add: numeral_eq_Suc)
  from warmup_iter_returns_first[OF p, of m] obtain s1 where
    a: "warmup_iter m 0 st = Done s1" and p1: "primed (Suc 2) (Suc 2) (Suc t) s1"
    by (auto simp: numeral_eq_Suc)
  from warmup_iter_returns_later[OF p1 assms(2), of 1] obtain s2 where
    b: "warmup_iter m 1 s1 = Done s2" and p2: "primed (Suc 1) (Suc 1) (Suc (Suc t)) s2"
    by (auto simp: numeral_eq_Suc)
  from warmup_iter_returns_later[OF p2 assms(3), of 2] obtain s3 where
    c: "warmup_iter m 2 s2 = Done s3" and p3: "primed (Suc 0) (Suc 0) (Suc (Suc (Suc t))) s3"
    by (auto simp: numeral_eq_Suc)
  from warmup_iter_returns_later[OF p3 assms(4), of 3] obtain s4 where
    d: "warmup_iter m 3 s3 = Done s4" by auto
  have "warmup_from m [0, 1, 2, 3] st = Done s4" using a b c d by simp
  then show ?thesis by (auto simp: full_warmup_def upt_rec numeral_eq_Suc)
qed

lemma warm_encode_owed:
  assumes "warm_encode st = Done st'" and "eng st = Eng_serving"
  shows "eng st' = Eng_serving \<and> fed st' = Suc (fed st)
       \<and> owed m st' = owed m st @ emits m (fed st) 1
       \<and> input_queue st' = input_queue st \<and> output_queue st' = output_queue st"
proof -
  from warm_encode_Done[OF assms(1)] obtain k d rs where
    st': "st' = st\<lparr>enc_resp := rs, trace := trace st @ priming_encode (k, d), c2s := c2s st @ [d]\<rparr>"
    by blast
  have "emits m (step_idx st) (length (c2s st) + 1)
          = emits m (step_idx st) (length (c2s st)) @ emits m (step_idx st + length (c2s st)) 1"
    by (rule emits_add)
  with assms(2) show ?thesis by (simp add: st' owed_def fed_def)
qed

lemma warm_decode_owed:
  assumes "warm_decode m st = Done st'" and "eng st = Eng_serving"
  shows "eng st' = Eng_serving \<and> fed st' = fed st \<and> c2s st' = []
       \<and> (\<exists>x. owed m st = x # s2c st')
       \<and> input_queue st' = input_queue st \<and> output_queue st' = output_queue st"
proof -
  from warm_decode_Done[OF assms(1)] obtain x w j p rs where
    xw: "s2c (engine_run m st) = x # w"
    and st': "st' = (engine_run m st)\<lparr>s2c := w, dec_resp := rs,
                                      trace := trace st @ priming_decode (x, j, p)\<rparr>"
    by blast
  note er = engine_run_serving[OF assms(2), of m]
  from xw have "owed m st = x # w" by (simp add: owed_def er(3))
  then show ?thesis by (simp add: st' er fed_def)
qed

lemma owed_drained: "c2s st = [] \<Longrightarrow> owed m st = s2c st"
  by (simp add: owed_def)

lemma warmup_iter_owed_first:
  assumes "warmup_iter m 0 st = Done st'" and "eng st = Eng_serving"
  shows "eng st' = Eng_serving \<and> fed st' = Suc (fed st)
       \<and> owed m st' = owed m st @ emits m (fed st) 1
       \<and> input_queue st' = input_queue st \<and> output_queue st' = output_queue st"
proof -
  from warmup_iter_Done[OF assms(1)] have "warm_encode st = Done st'" by auto
  from warm_encode_owed[OF this assms(2)] show ?thesis .
qed

lemma warmup_iter_owed_later:
  assumes "warmup_iter m i st = Done st'" and "eng st = Eng_serving" and "i \<noteq> 0"
  shows "eng st' = Eng_serving \<and> fed st' = Suc (fed st) \<and> c2s st' = []
       \<and> (\<exists>x. owed m st @ emits m (fed st) 1 = x # s2c st')
       \<and> input_queue st' = input_queue st \<and> output_queue st' = output_queue st"
proof -
  from warmup_iter_Done[OF assms(1)] assms(3) obtain st2 where
    a: "warm_encode st = Done st2" and b: "warm_decode m st2 = Done st'" by auto
  from warm_encode_owed[OF a assms(2), of m] have
    e: "eng st2 = Eng_serving" "fed st2 = Suc (fed st)"
       "owed m st2 = owed m st @ emits m (fed st) 1"
       "input_queue st2 = input_queue st" "output_queue st2 = output_queue st"
    by simp_all
  from warm_decode_owed[OF b e(1)] e show ?thesis by simp
qed

lemma chain3:
  assumes "a @ b = x1 # s2" and "s2 @ c = x2 # s3" and "s3 @ d = x3 # s4"
  shows "a @ b @ c @ d = x1 # x2 # x3 # s4"
proof -
  have "a @ b @ c @ d = (a @ b) @ c @ d" by simp
  also have "\<dots> = x1 # (s2 @ c) @ d" using assms(1) by simp
  also have "\<dots> = x1 # x2 # (s3 @ d)" using assms(2) by simp
  also have "\<dots> = x1 # x2 # x3 # s4" using assms(3) by simp
  finally show ?thesis .
qed

lemma full_warmup_owed:
  assumes "full_warmup m st = Done st'" and "eng st = Eng_serving"
  shows "c2s st' = [] \<and> eng st' = Eng_serving
       \<and> s2c st' = drop 3 (owed m st @ emits m (fed st) 4)
       \<and> 3 \<le> length (owed m st @ emits m (fed st) 4)
       \<and> input_queue st' = input_queue st \<and> output_queue st' = output_queue st"
proof -
  from full_warmup_steps[OF assms(1)] obtain s1 s2 s3 where
    s: "warmup_iter m 0 st = Done s1" "warmup_iter m 1 s1 = Done s2"
       "warmup_iter m 2 s2 = Done s3" "warmup_iter m 3 s3 = Done st'" by blast
  from warmup_iter_owed_first[OF s(1) assms(2)] have
    1: "eng s1 = Eng_serving" "fed s1 = Suc (fed st)" "owed m s1 = owed m st @ emits m (fed st) 1"
       "input_queue s1 = input_queue st" "output_queue s1 = output_queue st"
    by simp_all
  from warmup_iter_owed_later[OF s(2) 1(1)] obtain x1 where
    2: "eng s2 = Eng_serving" "fed s2 = Suc (fed s1)" "c2s s2 = []"
       "owed m s1 @ emits m (fed s1) 1 = x1 # s2c s2"
       "input_queue s2 = input_queue s1" "output_queue s2 = output_queue s1"
    by auto
  from warmup_iter_owed_later[OF s(3) 2(1)] obtain x2 where
    3: "eng s3 = Eng_serving" "fed s3 = Suc (fed s2)" "c2s s3 = []"
       "owed m s2 @ emits m (fed s2) 1 = x2 # s2c s3"
       "input_queue s3 = input_queue s2" "output_queue s3 = output_queue s2"
    by auto
  from warmup_iter_owed_later[OF s(4) 3(1)] obtain x3 where
    4: "eng st' = Eng_serving" "c2s st' = []"
       "owed m s3 @ emits m (fed s3) 1 = x3 # s2c st'"
       "input_queue st' = input_queue s3" "output_queue st' = output_queue s3"
    by auto
  have e4: "emits m (fed st) 4 = emits m (fed st) 1 @ emits m (Suc (fed st)) 1
              @ emits m (Suc (Suc (fed st))) 1 @ emits m (Suc (Suc (Suc (fed st)))) 1"
    using emits_add[of m "fed st" 1 3] emits_add[of m "Suc (fed st)" 1 2]
          emits_add[of m "Suc (Suc (fed st))" 1 1]
    by (simp add: numeral_eq_Suc)
  have o2: "owed m s2 = s2c s2" and o3: "owed m s3 = s2c s3"
    using 2(3) 3(3) by (simp_all add: owed_drained)
  have f1: "owed m st @ (emits m (fed st) 1 @ emits m (Suc (fed st)) 1) = x1 # s2c s2"
    using 1(2,3) 2(4) by simp
  have f2: "s2c s2 @ emits m (Suc (Suc (fed st))) 1 = x2 # s2c s3"
    using 1(2) 2(2) 3(4) o2 by simp
  have f3: "s2c s3 @ emits m (Suc (Suc (Suc (fed st)))) 1 = x3 # s2c st'"
    using 1(2) 2(2) 3(2) 4(3) o3 by simp
  have "owed m st @ emits m (fed st) 4 = x1 # x2 # x3 # s2c st'"
    using chain3[OF f1 f2 f3] by (simp add: e4)
  then have "s2c st' = drop 3 (owed m st @ emits m (fed st) 4)
           \<and> 3 \<le> length (owed m st @ emits m (fed st) 4)" by simp
  with 1 2 3 4 show ?thesis by simp
qed

lemma engine_run_idle: "c2s st = [] \<Longrightarrow> engine_run m st = st"
  by (simp add: engine_run_def)

lemma main_unfold:
  "main a m encs decs =
     (case choose_mimi_file a of
        Inl e \<Rightarrow> Raised e (model_server_startup a (boot encs decs))
      | Inr f \<Rightarrow>
          (case startup_events a of
             Inl e \<Rightarrow> Blocked (stalled f e encs decs)
           | Inr evs \<Rightarrow>
               (case full_warmup m (warm_ready f evs encs decs) of
                  Done st2 \<Rightarrow> go a st2
                | other \<Rightarrow> other)))"
  by (simp add: main_def web_server_def model_server_startup_def boot_def engine_run_def
      log_def warm_ready_def stalled_def split: sum.splits)

lemma startup_trace_empty: "trace (model_server_startup a (boot encs decs)) = []"
  by (simp add: model_server_startup_def boot_def split: sum.splits)

lemma startup_events_shape:
  assumes "startup_events a = Inr evs"
  shows "\<exists>l1 tf l2 mf l3 l4 l5.
           evs = [E_log l1, E_load_tokenizer tf, E_build_model (arg_quantized a),
                  E_log l2, E_load_weights mf, E_log l3,
                  E_model_warmup, E_log l4, E_make_gen,
                  E_put (Ready ''start''), E_log l5]"
  using assms by (auto simp: startup_events_def bind_err_def log_def split: sum.splits)

lemma go_cases:
  "(\<exists>e. go a st = Raised e st)
   \<or> go a st = Done (st\<lparr>listening := True, trace := trace st @ [Listen]\<rparr>)"
  by (simp add: go_def split: sum.splits)

text \<open>Events of the warmup, whatever its outcome.\<close>

lemma emits_tokens: "list_all is_tokens (emits m k n)"
  by (simp add: emits_def list_all_iff put_tokens_def split: option.splits) auto

lemma engine_run_tokens:
  assumes "list_all is_tokens (s2c st)"
  shows "list_all is_tokens (s2c (engine_run m st))"
proof (cases "eng st = Eng_serving")
  case True
  from engine_run_serving(3)[OF True, of m] assms emits_tokens[of m] show ?thesis by simp
next
  case False
  then show ?thesis using assms by (simp add: engine_run_def loop_not_serving)
qed

lemma loop_eng_trace: "prefix (eng_trace st) (eng_trace (model_server_loop m fs st))"
proof (induction fs arbitrary: st)
  case Nil
  then show ?case by simp
next
  case (Cons d fs)
  show ?case
  proof (cases "eng st = Eng_serving")
    case True
    have "prefix (eng_trace st) (eng_trace (model_server_iter m d (st\<lparr>c2s := fs\<rparr>)))"
      by (simp add: model_server_iter_eq)
    also have "prefix \<dots> (eng_trace (model_server_loop m fs (model_server_iter m d (st\<lparr>c2s := fs\<rparr>))))"
      by (rule Cons.IH)
    finally show ?thesis using True by simp
  next
    case False
    then show ?thesis by simp
  qed
qed

lemma engine_run_eng_trace: "prefix (eng_trace st) (eng_trace (engine_run m st))"
  by (simp add: engine_run_def loop_eng_trace)

lemma poll_encoded_events:
  "warm_poll_encoded rs tr = (r, rs', tr') \<Longrightarrow> \<exists>new. tr' = tr @ new \<and> list_all warm_event new"
proof (induction rs arbitrary: tr)
  case Nil
  then show ?case by simp
next
  case (Cons x rs)
  show ?case
  proof (cases x)
    case None
    with Cons.prems have "warm_poll_encoded rs (tr @ [Sleep 10, Get_encoded None]) = (r, rs', tr')"
      by simp
    from Cons.IH[OF this] obtain new where
      "tr' = (tr @ [Sleep 10, Get_encoded None]) @ new" "list_all warm_event new" by blast
    then have "tr' = tr @ ([Sleep 10, Get_encoded None] @ new)
             \<and> list_all warm_event ([Sleep 10, Get_encoded None] @ new)" by simp
    then show ?thesis by blast
  next
    case (Some d)
    with Cons.prems have "tr' = tr @ [Sleep 10, Get_encoded (Some d)]" by auto
    moreover have "list_all warm_event [Sleep 10, Get_encoded (Some d)]"
      by simp
    ultimately show ?thesis by blast
  qed
qed

lemma poll_decoded_events:
  "warm_poll_decoded rs tr = (r, rs', tr') \<Longrightarrow> \<exists>new. tr' = tr @ new \<and> list_all warm_event new"
proof (induction rs arbitrary: tr)
  case Nil
  then show ?case by simp
next
  case (Cons x rs)
  show ?case
  proof (cases x)
    case None
    with Cons.prems have "warm_poll_decoded rs (tr @ [Sleep 10, Get_decoded None]) = (r, rs', tr')"
      by simp
    from Cons.IH[OF this] obtain new where
      "tr' = (tr @ [Sleep 10, Get_decoded None]) @ new" "list_all warm_event new" by blast
    then have "tr' = tr @ ([Sleep 10, Get_decoded None] @ new)
             \<and> list_all warm_event ([Sleep 10, Get_decoded None] @ new)" by simp
    then show ?thesis by blast
  next
    case (Some d)
    with Cons.prems have "tr' = tr @ [Sleep 10, Get_decoded (Some d)]" by auto
    moreover have "list_all warm_event [Sleep 10, Get_decoded (Some d)]"
      by simp
    ultimately show ?thesis by blast
  qed
qed

lemma warm_step_refl: "warm_step st st"
  by (simp add: warm_step_def)

lemma warm_step_trans:
  assumes "warm_step a b" and "warm_step b c"
  shows "warm_step a c"
proof -
  from assms obtain n1 n2 where
    "trace b = trace a @ n1" "list_all warm_event n1"
    "trace c = trace b @ n2" "list_all warm_event n2"
    by (auto simp: warm_step_def)
  then have "trace c = trace a @ (n1 @ n2) \<and> list_all warm_event (n1 @ n2)" by simp
  then have "\<exists>new. trace c = trace a @ new \<and> list_all warm_event new" by blast
  moreover from assms have "prefix (eng_trace a) (eng_trace c)"
    by (auto simp: warm_step_def intro: prefix_order.trans)
  ultimately show ?thesis using assms by (simp add: warm_step_def)
qed

lemma warm_encode_step: "warm_step st (final (warm_encode st))"
proof -
  obtain r rs tr where
    p: "warm_poll_encoded (enc_resp st) (trace st @ [Encode (replicate 1920 0)]) = (r, rs, tr)"
    by (metis prod_cases3)
  from poll_encoded_events[OF p] obtain new where
    n: "tr = (trace st @ [Encode (replicate 1920 0)]) @ new" "list_all warm_event new" by blast
  show ?thesis
  proof (cases r)
    case None
    have "trace st @ Encode (replicate 1920 0) # new = trace st @ (Encode (replicate 1920 0) # new)
          \<and> list_all warm_event (Encode (replicate 1920 0) # new)" using n(2) by simp
    then have "\<exists>nw. trace st @ Encode (replicate 1920 0) # new = trace st @ nw \<and> list_all warm_event nw"
      by blast
    with None p n show ?thesis by (simp add: warm_encode_def warm_step_def)
  next
    case (Some d)
    have "trace st @ Encode (replicate 1920 0) # new @ [Put_c2s d]
            = trace st @ (Encode (replicate 1920 0) # new @ [Put_c2s d])
          \<and> list_all warm_event (Encode (replicate 1920 0) # new @ [Put_c2s d])" using n(2) by simp
    then have "\<exists>nw. trace st @ Encode (replicate 1920 0) # new @ [Put_c2s d] = trace st @ nw
                  \<and> list_all warm_event nw"
      by blast
    with Some p n show ?thesis by (simp add: warm_encode_def warm_step_def)
  qed
qed

lemma engine_run_step: "warm_step st (engine_run m st)"
  using engine_run_tokens[of st m] by (simp add: warm_step_def engine_run_eng_trace)

lemma warm_decode_step:
  assumes "list_all is_tokens (s2c st)"
  shows "warm_step st (final (warm_decode m st))"
proof -
  let ?st3 = "engine_run m st"
  have tk: "list_all is_tokens (s2c ?st3)" using assms by (rule engine_run_tokens)
  show ?thesis
  proof (cases "s2c ?st3")
    case Nil
    then have "final (warm_decode m st) = ?st3" by (simp add: warm_decode_def Let_def)
    then show ?thesis by (simp add: engine_run_step)
  next
    case (Cons x w)
    with tk obtain t where x: "x = Tokens t" and tw: "list_all is_tokens w"
      by (cases x) auto
    obtain r rs tr where
      p: "warm_poll_decoded (dec_resp st) (trace st @ [Q_get x, Decode x]) = (r, rs, tr)"
      by (metis prod_cases3)
    from poll_decoded_events[OF p] obtain new where
      n: "tr = (trace st @ [Q_get x, Decode x]) @ new" "list_all warm_event new" by blast
    have f: "final (warm_decode m st) = ?st3\<lparr>s2c := w, dec_resp := rs, trace := tr\<rparr>"
      using Cons p by (cases r) (simp_all add: warm_decode_def Let_def)
    have "tr = trace st @ ([Q_get x, Decode x] @ new)
          \<and> list_all warm_event ([Q_get x, Decode x] @ new)" using n x by simp
    then have "\<exists>nw. tr = trace st @ nw \<and> list_all warm_event nw" by blast
    with tw show ?thesis by (simp add: f warm_step_def engine_run_eng_trace)
  qed
qed

lemma warmup_iter_step:
  assumes "list_all is_tokens (s2c st)"
  shows "warm_step st (final (warmup_iter m i st))
       \<and> list_all is_tokens (s2c (final (warmup_iter m i st)))"
proof -
  have e: "warm_step st (final (warm_encode st))" by (rule warm_encode_step)
  then have tk: "list_all is_tokens (s2c (final (warm_encode st)))"
    using assms by (simp add: warm_step_def)
  show ?thesis
  proof (cases "warm_encode st")
    case (Done st2)
    show ?thesis
    proof (cases "i = 0")
      case True
      with Done e tk show ?thesis by (simp add: warmup_iter_def)
    next
      case False
      from Done tk have t2: "list_all is_tokens (s2c st2)" by simp
      from warm_decode_step[OF t2, of m] have d: "warm_step st2 (final (warm_decode m st2))" .
      from Done e have "warm_step st st2" by simp
      from warm_step_trans[OF this d] have "warm_step st (final (warm_decode m st2))" .
      moreover from d t2 have "list_all is_tokens (s2c (final (warm_decode m st2)))"
        by (simp add: warm_step_def)
      ultimately show ?thesis using Done False by (simp add: warmup_iter_def)
    qed
  next
    case (Blocked s)
    with e tk show ?thesis by (simp add: warmup_iter_def)
  next
    case (Starved s)
    with e tk show ?thesis by (simp add: warmup_iter_def)
  next
    case (Raised x s)
    with e tk show ?thesis by (simp add: warmup_iter_def)
  qed
qed

lemma warmup_from_step:
  "list_all is_tokens (s2c st) \<Longrightarrow> warm_step st (final (warmup_from m is st))"
proof (induction "is" arbitrary: st)
  case Nil
  then show ?case by (simp add: warm_step_refl)
next
  case (Cons i "is")
  from warmup_iter_step[OF Cons.prems, of m i] have
    w: "warm_step st (final (warmup_iter m i st))"
    and t: "list_all is_tokens (s2c (final (warmup_iter m i st)))" by simp_all
  show ?case
  proof (cases "warmup_iter m i st")
    case (Done st1)
    with t have "list_all is_tokens (s2c st1)" by simp
    from Cons.IH[OF this] have "warm_step st1 (final (warmup_from m is st1))" .
    moreover from w Done have "warm_step st st1" by simp
    ultimately have "warm_step st (final (warmup_from m is st1))" by (rule warm_step_trans[rotated])
    with Done show ?thesis by simp
  next
    case (Blocked s)
    with w show ?thesis by simp
  next
    case (Starved s)
    with w show ?thesis by simp
  next
    case (Raised x s)
    with w show ?thesis by simp
  qed
qed

lemma full_warmup_step:
  "list_all is_tokens (s2c st) \<Longrightarrow> warm_step st (final (full_warmup m st))"
  by (simp add: full_warmup_def warmup_from_step)

section \<open>Properties of the sessions\<close>

lemma fresh_inv: "fresh st \<Longrightarrow> gw_inv st"
  by (simp add: fresh_def gw_inv_def session_ok_def idle_session_def in_session_def
      any_running_def running_def handshake_first_def)

lemma emit_simps:
  "emit ''warning'' msg s = Inr (s\<lparr>printed := printed s @ [(colorize ''[Warn]'' ''1;31'', msg)]\<rparr>)"
  "emit ''info'' msg s = Inr (s\<lparr>printed := printed s @ [(colorize ''[Info]'' ''1;34'', msg)]\<rparr>)"
  "emit ''error'' msg s = Inr (s\<lparr>printed := printed s @ [(colorize ''[Err ]'' ''1;31'', msg)]\<rparr>)"
  by (simp_all add: emit_def log_def)

lemma recv_body_keeps:
  "recv_body m s = Inr (fl, s') \<Longrightarrow>
     phase s' = phase s \<and> sent s' = sent s \<and> close s' = close s
     \<and> opus_task s' = opus_task s \<and> recv_task s' = recv_task s
     \<and> send_task s' = send_task s \<and> another_task s' = another_task s
     \<and> all_pcm_data s' = all_pcm_data s \<and> opus_writer s' = opus_writer s"
  by (auto simp: recv_body_def say_def emit_simps parse_frame_def index0_def
           split: ws_data.splits list.splits if_splits)

lemma recv_exit_eq:
  "recv_exit pending s =
     s\<lparr>close := True,
       printed := printed s @ [(colorize ''[Info]'' ''1;34'', ''connection closed'', F_none)],
       recv_task := (case pending of None \<Rightarrow> Exited | Some e \<Rightarrow> Crashed e)\<rparr>"
  by (simp add: recv_exit_def recv_finally_def emit_simps)

lemma iter_keeps:
  "lock (model_server_iter m d st) = lock st \<and> sessions (model_server_iter m d st) = sessions st"
  by (simp add: model_server_iter_def split: prod.splits sum.splits)

lemma handshake_first_snoc:
  "fs \<noteq> [] \<Longrightarrow> handshake_first fs \<Longrightarrow> msg \<noteq> [] \<Longrightarrow> handshake_first (fs @ [audio_frame msg])"
  by (cases fs) (auto simp: handshake_first_def audio_tagged_def audio_frame_def)

lemma handshake_first_simps [simp]:
  "handshake_first []" "handshake_first [handshake_frame]"
  by (simp_all add: handshake_first_def handshake_frame_def)

lemma gw_inv_upd:
  assumes "gw_inv st" and "lock st1 = lock st" and "sessions st1 = sessions st"
    and "session_ok (lock st) c (f (sessions st c))"
  shows "gw_inv (upd c f st1)"
  using assms by (simp add: gw_inv_def upd_def)

lemma gw_inv_same:
  "lock st' = lock st \<Longrightarrow> sessions st' = sessions st \<Longrightarrow> gw_inv st \<Longrightarrow> gw_inv st'"
  by (simp add: gw_inv_def)

lemma gw_invD: "gw_inv st \<Longrightarrow> session_ok (lock st) c (sessions st c)"
  by (simp add: gw_inv_def)

lemma inv_accept:
  assumes "gw_inv st" and "do_accept c st = Inr st'"
  shows "gw_inv st'"
proof -
  let ?s = "sessions st c"
  from assms(2) have en: "phase ?s = Idle"
    by (simp add: do_accept_def Let_def split: if_splits)
  let ?f = "\<lambda>_::'a session. ?s\<lparr>close := False, phase := Waiting,
               printed := printed ?s @ [(colorize ''[Info]'' ''1;34'', ''accepted connection'', F_none)]\<rparr>"
  from assms(2) have st': "st' = upd c ?f st"
    by (simp add: do_accept_def Let_def put_session_def emit_simps split: if_splits)
  from gw_invD[OF assms(1), of c] en have "session_ok (lock st) c (?f ?s)"
    by (simp add: session_ok_def in_session_def any_running_def handshake_first_def)
  from gw_inv_upd[where f = ?f and ?st1.0 = st, OF assms(1) refl refl this] st' show ?thesis by simp
qed

lemma inv_acquire:
  assumes "gw_inv st" and "do_acquire c st = Inr st'"
  shows "gw_inv st'"
proof -
  let ?s = "sessions st c"
  from assms(2) have en: "phase ?s = Waiting" "lock st = None"
    by (simp_all add: do_acquire_def split: if_splits)
  let ?f = "\<lambda>s::'a session. s\<lparr>phase := Locked, opus_writer := [], opus_reader := []\<rparr>"
  from assms(2) have st': "st' = upd c ?f (st\<lparr>lock := Some c\<rparr>)"
    by (simp add: do_acquire_def split: if_splits)
  have "session_ok (Some c) d (sessions st' d)" for d
  proof (cases "d = c")
    case True
    from gw_invD[OF assms(1), of c] en have "session_ok (Some c) c (?f ?s)"
      by (simp add: session_ok_def in_session_def any_running_def)
    with True st' show ?thesis by (simp add: upd_def)
  next
    case False
    from gw_invD[OF assms(1), of d] en(2) have "session_ok (Some c) d (sessions st d)"
      using False by (simp add: session_ok_def)
    with False st' show ?thesis by (simp add: upd_def)
  qed
  moreover have "lock st' = Some c" using st' by (simp add: upd_def)
  ultimately show ?thesis by (simp add: gw_inv_def)
qed

lemma inv_handshake:
  assumes "gw_inv st" and "do_handshake c st = Inr st'"
  shows "gw_inv st'"
proof -
  let ?s = "sessions st c"
  from assms(2) have en: "phase ?s = Locked"
    by (simp add: do_handshake_def split: if_splits)
  let ?f = "\<lambda>s::'a session. s\<lparr>sent := sent s @ [handshake_frame], phase := Streaming,
                             opus_task := At_check, recv_task := In_body,
                             send_task := At_check, another_task := At_check\<rparr>"
  from assms(2) have st': "st' = upd c ?f st"
    by (simp add: do_handshake_def split: if_splits)
  from gw_invD[OF assms(1), of c] en have "session_ok (lock st) c (?f ?s)"
    by (simp add: session_ok_def in_session_def)
  from gw_inv_upd[where f = ?f and ?st1.0 = st, OF assms(1) refl refl this] st' show ?thesis by simp
qed

lemma crashed_not_exited: "crashed s \<Longrightarrow> \<not> all_exited s"
  by (auto simp: crashed_def all_exited_def)

lemma inv_release:
  assumes "gw_inv st" and "do_release c st = Inr st'"
  shows "gw_inv st'"
proof -
  let ?s = "sessions st c"
  from assms(2) have en: "phase ?s = Streaming" "all_exited ?s \<or> crashed ?s"
    by (auto simp: do_release_def Let_def split: if_splits)
  let ?f = "\<lambda>_::'a session. ?s\<lparr>phase := Finished,
               printed := printed ?s @ [(colorize ''[Info]'' ''1;34'', ''done with connection'', F_none)]\<rparr>"
  let ?g = "\<lambda>s::'a session. s\<lparr>phase := Aborted\<rparr>"
  from gw_invD[OF assms(1), of c] en(1) have lk: "lock st = Some c"
    by (simp add: session_ok_def in_session_def)
  have other: "session_ok None d (sessions st d)" if "d \<noteq> c" for d
    using gw_invD[OF assms(1), of d] lk that by (simp add: session_ok_def)
  show ?thesis
  proof (cases "all_exited ?s")
    case True
    with assms(2) en(1) have st': "st' = upd c ?f (st\<lparr>lock := None\<rparr>)"
      by (simp add: do_release_def Let_def put_session_def emit_simps split: if_splits)
    from gw_invD[OF assms(1), of c] en(1) True have "session_ok None c (?f ?s)"
      by (simp add: session_ok_def in_session_def any_running_def running_def all_exited_def)
    with other st' have "session_ok None d (sessions st' d)" for d
      by (cases "d = c") (simp_all add: upd_def)
    moreover have "lock st' = None" using st' by (simp add: upd_def)
    ultimately show ?thesis by (simp add: gw_inv_def)
  next
    case False
    with en(2) have cr: "crashed ?s" by simp
    from False assms(2) en(1) cr have st': "st' = upd c ?g (st\<lparr>lock := None\<rparr>)"
      by (simp add: do_release_def Let_def split: if_splits)
    from gw_invD[OF assms(1), of c] en(1) cr have "session_ok None c (?g ?s)"
      by (simp add: session_ok_def in_session_def any_running_def crashed_def)
    with other st' have "session_ok None d (sessions st' d)" for d
      by (cases "d = c") (simp_all add: upd_def)
    moreover have "lock st' = None" using st' by (simp add: upd_def)
    ultimately show ?thesis by (simp add: gw_inv_def)
  qed
qed

lemma inv_loop_upd:
  assumes "gw_inv st" and "lock st1 = lock st" and "sessions st1 = sessions st"
    and "any_running (sessions st c)" and "phase s' = phase (sessions st c)"
    and "crashed (sessions st c) \<longrightarrow> crashed s'"
    and "sent s' = sent (sessions st c)
         \<or> (\<exists>msg. msg \<noteq> [] \<and> sent s' = sent (sessions st c) @ [audio_frame msg])"
  shows "gw_inv (upd c (\<lambda>_. s') st1)"
proof -
  let ?s = "sessions st c"
  note ok = gw_invD[OF assms(1), of c]
  from ok assms(4) have ph: "phase ?s = Streaming \<or> phase ?s = Aborted"
    by (simp add: session_ok_def)
  with ok have ne: "sent ?s \<noteq> []" and hf: "handshake_first (sent ?s)"
    and ab: "phase ?s = Aborted \<longrightarrow> crashed ?s"
    and ins: "in_session ?s \<longleftrightarrow> lock st = Some c"
    by (auto simp: session_ok_def)
  from assms(7) ne hf have ne': "sent s' \<noteq> []" and hf': "handshake_first (sent s')"
    by (auto simp: handshake_first_snoc)
  from ph assms(5) ab assms(6) ins ne' hf' have "session_ok (lock st) c s'"
    by (auto simp: session_ok_def in_session_def)
  then show ?thesis
    using gw_inv_upd[where f = "\<lambda>_. s'" and ?st1.0 = st1, OF assms(1,2,3)] by simp
qed

lemma inv_recv:
  assumes "gw_inv st" and "do_recv c message st = Inr st'"
  shows "gw_inv st'"
proof -
  let ?s = "sessions st c"
  from assms(2) have en: "recv_task ?s = In_body"
    by (simp add: do_recv_def Let_def split: if_splits)
  then have ru: "any_running ?s" by (simp add: any_running_def running_def)
  show ?thesis
  proof (cases "recv_body message ?s")
    case (Inl e)
    with assms(2) en have "st' = upd c (\<lambda>_. recv_exit (Some e) ?s) st"
      by (simp add: do_recv_def Let_def)
    moreover have "gw_inv (upd c (\<lambda>_. recv_exit (Some e) ?s) st)"
      by (rule inv_loop_upd[OF assms(1) refl refl ru]) (auto simp: recv_exit_eq crashed_def en)
    ultimately show ?thesis by simp
  next
    case (Inr r)
    then obtain fl s1 where rb: "recv_body message ?s = Inr (fl, s1)" by (cases r) simp
    note k = recv_body_keeps[OF rb]
    show ?thesis
    proof (cases fl)
      case Continue
      with assms(2) rb en have "st' = upd c (\<lambda>_. s1) st"
        by (simp add: do_recv_def Let_def)
      moreover have "gw_inv (upd c (\<lambda>_. s1) st)"
        by (rule inv_loop_upd[OF assms(1) refl refl ru]) (auto simp: k crashed_def)
      ultimately show ?thesis by simp
    next
      case Break
      with assms(2) rb en have "st' = upd c (\<lambda>_. recv_exit None s1) st"
        by (simp add: do_recv_def Let_def)
      moreover have "gw_inv (upd c (\<lambda>_. recv_exit None s1) st)"
        by (rule inv_loop_upd[OF assms(1) refl refl ru]) (auto simp: recv_exit_eq k crashed_def en)
      ultimately show ?thesis by simp
    qed
  qed
qed

lemma inv_recv_end:
  assumes "gw_inv st" and "do_recv_end c st = Inr st'"
  shows "gw_inv st'"
proof -
  let ?s = "sessions st c"
  from assms(2) have en: "recv_task ?s = In_body"
    by (simp add: do_recv_end_def Let_def split: if_splits)
  then have ru: "any_running ?s" by (simp add: any_running_def running_def)
  from assms(2) en have "st' = upd c (\<lambda>_. recv_exit None ?s) st"
    by (simp add: do_recv_end_def Let_def)
  moreover have "gw_inv (upd c (\<lambda>_. recv_exit None ?s) st)"
    by (rule inv_loop_upd[OF assms(1) refl refl ru]) (auto simp: recv_exit_eq crashed_def en)
  ultimately show ?thesis by simp
qed

lemma inv_opus_check:
  assumes "gw_inv st" and "do_opus_check c st = Inr st'"
  shows "gw_inv st'"
proof -
  let ?s = "sessions st c"
  from assms(2) have en: "opus_task ?s = At_check"
    by (simp add: do_opus_check_def Let_def split: if_splits)
  then have ru: "any_running ?s" by (simp add: any_running_def running_def)
  let ?s2 = "?s\<lparr>opus_task := check_close (close ?s)\<rparr>"
  from assms(2) en have "st' = upd c (\<lambda>_. ?s2) st"
    by (simp add: do_opus_check_def Let_def upd_def)
  moreover have "gw_inv (upd c (\<lambda>_. ?s2) st)"
    by (rule inv_loop_upd[OF assms(1) refl refl ru]) (auto simp: crashed_def en)
  ultimately show ?thesis by simp
qed

lemma inv_opus_body:
  assumes "gw_inv st" and "do_opus_body c pcm st = Inr st'"
  shows "gw_inv st'"
proof -
  let ?s = "sessions st c"
  from assms(2) have en: "opus_task ?s = In_body"
    by (simp add: do_opus_body_def Let_def split: if_splits)
  then have ru: "any_running ?s" by (simp add: any_running_def running_def)
  show ?thesis
  proof (cases pcm)
    case None
    let ?s2 = "?s\<lparr>opus_task := Crashed AttributeError\<rparr>"
    from None assms(2) en have "st' = upd c (\<lambda>_. ?s2) st"
      by (simp add: do_opus_body_def Let_def upd_def)
    moreover have "gw_inv (upd c (\<lambda>_. ?s2) st)"
      by (rule inv_loop_upd[OF assms(1) refl refl ru]) (auto simp: crashed_def en)
    ultimately show ?thesis by simp
  next
    case (Some samples)
    obtain acc queue where
      op: "opus_poll samples (all_pcm_data ?s, input_queue st) = (acc, queue)"
      by (cases "opus_poll samples (all_pcm_data ?s, input_queue st)")
    let ?s2 = "?s\<lparr>all_pcm_data := acc, opus_task := At_check\<rparr>"
    from Some assms(2) en op have "st' = upd c (\<lambda>_. ?s2) (st\<lparr>input_queue := queue\<rparr>)"
      by (simp add: do_opus_body_def Let_def upd_def)
    moreover have "gw_inv (upd c (\<lambda>_. ?s2) (st\<lparr>input_queue := queue\<rparr>))"
      by (rule inv_loop_upd[OF assms(1) _ _ ru]) (auto simp: crashed_def en)
    ultimately show ?thesis by simp
  qed
qed

lemma inv_send_check:
  assumes "gw_inv st" and "do_send_check c st = Inr st'"
  shows "gw_inv st'"
proof -
  let ?s = "sessions st c"
  from assms(2) have en: "send_task ?s = At_check"
    by (simp add: do_send_check_def Let_def split: if_splits)
  then have ru: "any_running ?s" by (simp add: any_running_def running_def)
  let ?s2 = "?s\<lparr>send_task := check_close (close ?s)\<rparr>"
  from assms(2) en have "st' = upd c (\<lambda>_. ?s2) st"
    by (simp add: do_send_check_def Let_def upd_def)
  moreover have "gw_inv (upd c (\<lambda>_. ?s2) st)"
    by (rule inv_loop_upd[OF assms(1) refl refl ru]) (auto simp: crashed_def en)
  ultimately show ?thesis by simp
qed

lemma inv_send_body:
  assumes "gw_inv st" and "do_send_body c msg st = Inr st'"
  shows "gw_inv st'"
proof -
  let ?s = "sessions st c"
  from assms(2) have en: "send_task ?s = In_body"
    by (simp add: do_send_body_def Let_def split: if_splits)
  then have ru: "any_running ?s" by (simp add: any_running_def running_def)
  let ?s2 = "?s\<lparr>sent := (if length msg > 0 then sent ?s @ [audio_frame msg] else sent ?s),
                 send_task := At_check\<rparr>"
  from assms(2) en have "st' = upd c (\<lambda>_. ?s2) st"
    by (simp add: do_send_body_def Let_def upd_def)
  moreover have "gw_inv (upd c (\<lambda>_. ?s2) st)"
    by (rule inv_loop_upd[OF assms(1) refl refl ru]) (auto simp: crashed_def en)
  ultimately show ?thesis by simp
qed

lemma inv_another_check:
  assumes "gw_inv st" and "do_another_check c st = Inr st'"
  shows "gw_inv st'"
proof -
  let ?s = "sessions st c"
  from assms(2) have en: "another_task ?s = At_check"
    by (simp add: do_another_check_def Let_def split: if_splits)
  then have ru: "any_running ?s" by (simp add: any_running_def running_def)
  let ?s2 = "?s\<lparr>another_task := check_close (close ?s)\<rparr>"
  from assms(2) en have "st' = upd c (\<lambda>_. ?s2) st"
    by (simp add: do_another_check_def Let_def upd_def)
  moreover have "gw_inv (upd c (\<lambda>_. ?s2) st)"
    by (rule inv_loop_upd[OF assms(1) refl refl ru]) (auto simp: crashed_def en)
  ultimately show ?thesis by simp
qed

lemma inv_another_body:
  assumes "gw_inv st" and "do_another_body c st = Inr st'"
  shows "gw_inv st'"
proof -
  let ?s = "sessions st c"
  from assms(2) have en: "another_task ?s = In_body"
    by (simp add: do_another_body_def Let_def split: if_splits)
  then have ru: "any_running ?s" by (simp add: any_running_def running_def)
  show ?thesis
  proof (cases "output_queue st")
    case Nil
    let ?s2 = "?s\<lparr>another_task := At_check\<rparr>"
    from Nil assms(2) en have "st' = upd c (\<lambda>_. ?s2) st"
      by (simp add: do_another_body_def Let_def upd_def)
    moreover have "gw_inv (upd c (\<lambda>_. ?s2) st)"
      by (rule inv_loop_upd[OF assms(1) refl refl ru]) (auto simp: crashed_def en)
    ultimately show ?thesis by simp
  next
    case (Cons pcm_data waiting)
    show ?thesis
    proof (cases "length pcm_data = 1920")
      case True
      let ?s2 = "?s\<lparr>opus_writer := opus_writer ?s @ [pcm_data], another_task := At_check\<rparr>"
      from True Cons assms(2) en have "st' = upd c (\<lambda>_. ?s2) (st\<lparr>output_queue := waiting\<rparr>)"
        by (simp add: do_another_body_def Let_def upd_def)
      moreover have "gw_inv (upd c (\<lambda>_. ?s2) (st\<lparr>output_queue := waiting\<rparr>))"
        by (rule inv_loop_upd[OF assms(1) _ _ ru]) (auto simp: crashed_def en)
      ultimately show ?thesis by simp
    next
      case False
      let ?s2 = "?s\<lparr>another_task := Crashed AssertionError\<rparr>"
      from False Cons assms(2) en have "st' = upd c (\<lambda>_. ?s2) (st\<lparr>output_queue := waiting\<rparr>)"
        by (simp add: do_another_body_def Let_def upd_def)
      moreover have "gw_inv (upd c (\<lambda>_. ?s2) (st\<lparr>output_queue := waiting\<rparr>))"
        by (rule inv_loop_upd[OF assms(1) _ _ ru]) (auto simp: crashed_def en)
      ultimately show ?thesis by simp
    qed
  qed
qed

lemma inv_outer:
  assumes "gw_inv st"
  shows "do_outer_send st = Inr st' \<Longrightarrow> gw_inv st'"
    and "do_outer_recv st = Inr st' \<Longrightarrow> gw_inv st'"
    and "do_send_loop2 st = Inr st' \<Longrightarrow> gw_inv st'"
    and "do_recv_loop2 st = Inr st' \<Longrightarrow> gw_inv st'"
    and "do_engine_turn m st = Inr st' \<Longrightarrow> gw_inv st'"
proof -
  show "do_outer_send st = Inr st' \<Longrightarrow> gw_inv st'"
    by (rule gw_inv_same[OF _ _ assms])
       (auto simp: do_outer_send_def split: if_splits list.splits)
  show "do_outer_recv st = Inr st' \<Longrightarrow> gw_inv st'"
    by (rule gw_inv_same[OF _ _ assms])
       (auto simp: do_outer_recv_def split: if_splits list.splits option.splits)
  show "do_send_loop2 st = Inr st' \<Longrightarrow> gw_inv st'"
    by (rule gw_inv_same[OF _ _ assms])
       (auto simp: do_send_loop2_def split: if_splits list.splits option.splits)
  show "do_recv_loop2 st = Inr st' \<Longrightarrow> gw_inv st'"
    by (rule gw_inv_same[OF _ _ assms])
       (auto simp: do_recv_loop2_def split: if_splits list.splits)
  show "do_engine_turn m st = Inr st' \<Longrightarrow> gw_inv st'"
    by (rule gw_inv_same[OF _ _ assms])
       (auto simp: do_engine_turn_def iter_keeps split: if_splits list.splits)
qed

lemma step_inv:
  assumes "gw_inv st" and "step m a st = Inr st'"
  shows "gw_inv st'"
proof (cases a)
  case (Accept c)
  with assms(2) have "do_accept c st = Inr st'" by simp
  from inv_accept[OF assms(1) this] show ?thesis .
next
  case (Acquire c)
  with assms(2) have "do_acquire c st = Inr st'" by simp
  from inv_acquire[OF assms(1) this] show ?thesis .
next
  case (Handshake c)
  with assms(2) have "do_handshake c st = Inr st'" by simp
  from inv_handshake[OF assms(1) this] show ?thesis .
next
  case (Recv c msg)
  with assms(2) have "do_recv c msg st = Inr st'" by simp
  from inv_recv[OF assms(1) this] show ?thesis .
next
  case (Recv_end c)
  with assms(2) have "do_recv_end c st = Inr st'" by simp
  from inv_recv_end[OF assms(1) this] show ?thesis .
next
  case (Opus_check c)
  with assms(2) have "do_opus_check c st = Inr st'" by simp
  from inv_opus_check[OF assms(1) this] show ?thesis .
next
  case (Opus_body c pcm)
  with assms(2) have "do_opus_body c pcm st = Inr st'" by simp
  from inv_opus_body[OF assms(1) this] show ?thesis .
next
  case (Send_check c)
  with assms(2) have "do_send_check c st = Inr st'" by simp
  from inv_send_check[OF assms(1) this] show ?thesis .
next
  case (Send_body c msg)
  with assms(2) have "do_send_body c msg st = Inr st'" by simp
  from inv_send_body[OF assms(1) this] show ?thesis .
next
  case (Another_check c)
  with assms(2) have "do_another_check c st = Inr st'" by simp
  from inv_another_check[OF assms(1) this] show ?thesis .
next
  case (Another_body c)
  with assms(2) have "do_another_body c st = Inr st'" by simp
  from inv_another_body[OF assms(1) this] show ?thesis .
next
  case (Release c)
  with assms(2) have "do_release c st = Inr st'" by simp
  from inv_release[OF assms(1) this] show ?thesis .
next
  case Outer_send
  with assms(2) have "do_outer_send st = Inr st'" by simp
  from inv_outer(1)[OF assms(1) this] show ?thesis .
next
  case Outer_recv
  with assms(2) have "do_outer_recv st = Inr st'" by simp
  from inv_outer(2)[OF assms(1) this] show ?thesis .
next
  case Send_loop2
  with assms(2) have "do_send_loop2 st = Inr st'" by simp
  from inv_outer(3)[OF assms(1) this] show ?thesis .
next
  case Recv_loop2
  with assms(2) have "do_recv_loop2 st = Inr st'" by simp
  from inv_outer(4)[OF assms(1) this] show ?thesis .
next
  case Engine_turn
  with assms(2) have "do_engine_turn m st = Inr st'" by simp
  from inv_outer(5)[OF assms(1) this] show ?thesis .
qed

lemma run_inv: "gw_inv st \<Longrightarrow> run m acts st = Inr st' \<Longrightarrow> gw_inv st'"
proof (induction acts arbitrary: st)
  case Nil
  then show ?case by simp
next
  case (Cons a acts)
  from Cons.prems(2) obtain st1 where s1: "step m a st = Inr st1" and r: "run m acts st1 = Inr st'"
    by (cases "step m a st") simp_all
  from step_inv[OF Cons.prems(1) s1] have "gw_inv st1" .
  from Cons.IH[OF this r] show ?case .
qed






lemma demo_fresh: "fresh demo_serving"
  by (simp add: fresh_def demo_serving_def boot_def)

lemma demo_run:
  "\<not> isl (run demo_lm demo_acts demo_serving)"
  "lock (projr (run demo_lm demo_acts demo_serving)) = Some 0"
  "sent (sessions (projr (run demo_lm demo_acts demo_serving)) 0) = [handshake_frame, [1, 9, 9]]"
  "phase (sessions (projr (run demo_lm demo_acts demo_serving)) 1) = Waiting"
  by (simp_all add: demo_acts_def demo_serving_def boot_def idle_session_def do_accept_def
      do_acquire_def do_handshake_def do_send_check_def do_send_body_def put_session_def
      upd_def emit_simps Let_def check_close_def audio_frame_def)







lemma audio_taggedD: "audio_tagged f \<Longrightarrow> \<exists>p. f = 1 # p"
  by (cases f) (simp_all add: audio_tagged_def)

text \<open>
  C4. On every connection, in every state the serving gateway reaches, what was sent is
  either nothing or the one-byte frame 0 followed only by frames that start with byte 1.
  A handler that has not yet passed the handshake has sent nothing, the handshake leaves
  exactly the frame 0 sent, and \<open>send_loop\<close> sends only after it.
\<close>

theorem handshake_is_first:
  assumes "fresh st0" and "run m acts st0 = Inr st"
  shows "(sent (sessions st c) = []
          \<or> (\<exists>rest. sent (sessions st c) = [0] # rest \<and> (\<forall>f\<in>set rest. \<exists>p. f = 1 # p)))
       \<and> (phase (sessions st c) = Idle \<or> phase (sessions st c) = Waiting
            \<or> phase (sessions st c) = Locked \<longrightarrow> sent (sessions st c) = [])
       \<and> (\<forall>st'. step m (Handshake c) st = Inr st' \<longrightarrow>
             sent (sessions st' c) = [handshake_frame] \<and> handshake_frame = [0])
       \<and> (\<forall>msg st'. step m (Send_body c msg) st = Inr st' \<longrightarrow>
             sent (sessions st c) \<noteq> [] \<and> hd (sent (sessions st c)) = [0])"
proof -
  from run_inv[OF fresh_inv[OF assms(1)] assms(2)] have inv: "gw_inv st" .
  from gw_invD[OF inv, of c] have ok: "session_ok (lock st) c (sessions st c)" .
  have hf: "handshake_first (sent (sessions st c))" using ok by (simp add: session_ok_def)
  have a: "sent (sessions st c) = []
          \<or> (\<exists>rest. sent (sessions st c) = [0] # rest \<and> (\<forall>f\<in>set rest. \<exists>p. f = 1 # p))"
    using hf by (cases "sent (sessions st c)")
                (auto simp: handshake_first_def list_all_iff dest: audio_taggedD)
  have b: "phase (sessions st c) = Idle \<or> phase (sessions st c) = Waiting
            \<or> phase (sessions st c) = Locked \<longrightarrow> sent (sessions st c) = []"
    using ok by (simp add: session_ok_def)
  have c: "step m (Handshake c) st = Inr st' \<longrightarrow>
             sent (sessions st' c) = [handshake_frame] \<and> handshake_frame = [0]" for st'
    using b by (auto simp: do_handshake_def upd_def handshake_frame_def split: if_splits)
  have d: "step m (Send_body c msg) st = Inr st' \<longrightarrow>
             sent (sessions st c) \<noteq> [] \<and> hd (sent (sessions st c)) = [0]" for msg st'
  proof
    assume "step m (Send_body c msg) st = Inr st'"
    then have "send_task (sessions st c) = In_body"
      by (simp add: do_send_body_def Let_def split: if_splits)
    then have "any_running (sessions st c)" by (simp add: any_running_def running_def)
    with ok have "sent (sessions st c) \<noteq> []" by (auto simp: session_ok_def)
    with hf show "sent (sessions st c) \<noteq> [] \<and> hd (sent (sessions st c)) = [0]"
      by (cases "sent (sessions st c)") (simp_all add: handshake_first_def)
  qed
  from a b c d show ?thesis by blast
qed

theorem handshake_is_first_witness:
  "fresh demo_serving
   \<and> run demo_lm demo_acts demo_serving = Inr (projr (run demo_lm demo_acts demo_serving))
   \<and> sent (sessions (projr (run demo_lm demo_acts demo_serving)) 0) = [handshake_frame, [1, 9, 9]]
   \<and> sent (sessions (projr (run demo_lm demo_acts demo_serving)) 1) = []"
proof -
  let ?st = "projr (run demo_lm demo_acts demo_serving)"
  have r: "run demo_lm demo_acts demo_serving = Inr ?st"
    using demo_run(1) by simp
  from handshake_is_first[OF demo_fresh r, of 1] demo_run(3,4) r demo_fresh
  show ?thesis by auto
qed

section \<open>Properties of the start, of the warmup and of the frames that reach the encoder\<close>

lemma warm_event_facts:
  "warm_event e \<Longrightarrow> e \<noteq> Q_get (Ready s)"
  "warm_event e \<Longrightarrow> \<not> is_ready_get e"
  "warm_event e \<Longrightarrow> e \<noteq> Listen"
  "warm_event e \<Longrightarrow> e \<noteq> Construct_codec f"
  by (induction e rule: warm_event.induct; simp)+

lemma warm_event_Decode: "warm_event (Decode x) \<Longrightarrow> is_tokens x"
  by (cases x) simp_all

lemma startup_fields:
  "trace (model_server_startup a st) = trace st"
  "listening (model_server_startup a st) = listening st"
  "sessions (model_server_startup a st) = sessions st"
  "lock (model_server_startup a st) = lock st"
  by (simp_all add: model_server_startup_def split: sum.splits)

lemma main_final:
  fixes a :: args and m :: "'t lm" and encs :: "'f option list"
    and decs :: "('a::zero) list option list"
  shows "(\<exists>e. choose_mimi_file a = Inl e
              \<and> final (main a m encs decs) = model_server_startup a (boot encs decs))
       \<or> (\<exists>f e. choose_mimi_file a = Inr f
              \<and> (startup_events a :: py_error + ('f, 't) eng_event list) = Inl e
              \<and> final (main a m encs decs) = stalled f e encs decs)
       \<or> (\<exists>f evs F. choose_mimi_file a = Inr f \<and> startup_events a = Inr evs
              \<and> warm_step (warm_ready f evs encs decs) F
              \<and> (final (main a m encs decs) = F
                  \<or> final (main a m encs decs)
                       = F\<lparr>listening := True, trace := trace F @ [Listen]\<rparr>))"
proof (cases "choose_mimi_file a")
  case (Inl e)
  then show ?thesis by (simp add: main_unfold)
next
  case (Inr f)
  show ?thesis
  proof (cases "startup_events a :: py_error + ('f, 't) eng_event list")
    case (Inl e)
    with Inr show ?thesis by (simp add: main_unfold)
  next
    case evs: (Inr evs)
    let ?W = "warm_ready f evs encs decs :: ('a, 'f, 't) gw"
    let ?F = "final (full_warmup m ?W)"
    have ws: "warm_step ?W ?F"
      by (rule full_warmup_step) (simp add: warm_ready_def)
    have "final (main a m encs decs) = ?F
          \<or> final (main a m encs decs) = ?F\<lparr>listening := True, trace := trace ?F @ [Listen]\<rparr>"
    proof (cases "full_warmup m ?W")
      case (Done st2)
      with go_cases[of a st2] Inr evs show ?thesis by (auto simp: main_unfold)
    next
      case (Blocked s)
      with Inr evs show ?thesis by (simp add: main_unfold)
    next
      case (Starved s)
      with Inr evs show ?thesis by (simp add: main_unfold)
    next
      case (Raised x s)
      with Inr evs show ?thesis by (simp add: main_unfold)
    qed
    with ws Inr evs show ?thesis by blast
  qed
qed

lemma main_Done:
  fixes a :: args and m :: "'t lm" and encs :: "'f option list"
    and decs :: "('a::zero) list option list"
  assumes "main a m encs decs = Done st"
  shows "\<exists>f evs F. choose_mimi_file a = Inr f \<and> startup_events a = Inr evs
           \<and> full_warmup m (warm_ready f evs encs decs) = Done F
           \<and> st = F\<lparr>listening := True, trace := trace F @ [Listen]\<rparr>"
proof -
  from assms obtain f where f: "choose_mimi_file a = Inr f"
    by (cases "choose_mimi_file a") (simp_all add: main_unfold)
  from assms f obtain evs where
    evs: "(startup_events a :: py_error + ('f, 't) eng_event list) = Inr evs"
    by (cases "startup_events a :: py_error + ('f, 't) eng_event list")
       (simp_all add: main_unfold)
  let ?W = "warm_ready f evs encs decs :: ('a, 'f, 't) gw"
  from assms f evs obtain F where F: "full_warmup m ?W = Done F"
    by (cases "full_warmup m ?W") (simp_all add: main_unfold)
  from assms f evs F have "go a F = Done st" by (simp add: main_unfold)
  with go_cases[of a F] have "st = F\<lparr>listening := True, trace := trace F @ [Listen]\<rparr>"
    by auto
  with f evs F show ?thesis by blast
qed

lemma emits_length: "length (emits m k n) \<le> n"
proof (induction n arbitrary: k)
  case 0
  then show ?case by simp
next
  case (Suc n)
  have "length (put_tokens (snd (gen_step m k))) \<le> 1"
    by (simp add: put_tokens_def split: option.splits)
  with Suc[of "Suc k"] show ?case by (simp add: emits_Suc_front)
qed

lemma main_returns:
  fixes a :: args and m :: "'t lm" and encs :: "'f option list"
    and decs :: "('a::zero) list option list"
  assumes "choose_mimi_file a = Inr f"
    and "(startup_events a :: py_error + ('f, 't) eng_event list) = Inr evs"
    and "arg_static a \<noteq> None"
    and "yields 4 encs" and "yields 3 decs"
    and "snd (gen_step m 1) \<noteq> None" and "snd (gen_step m 2) \<noteq> None"
    and "snd (gen_step m 3) \<noteq> None"
  shows "\<exists>st. main a m encs decs = Done st"
proof -
  let ?W = "warm_ready f evs encs decs :: ('a, 'f, 't) gw"
  have p: "primed 4 3 0 ?W" using assms(4,5) by (simp add: primed_def warm_ready_def)
  from full_warmup_returns[OF p, of m] assms(6,7,8) obtain F where
    F: "full_warmup m ?W = Done F" by (auto simp: numeral_eq_Suc)
  from assms(3) have "\<exists>st. go a F = Done st" by (auto simp: go_def)
  with assms(1,2) F show ?thesis by (simp add: main_unfold)
qed

text \<open>
  C8. One turn of the engine loop makes one step of the model, which gives one text token.
  If the token is 0 or 3 nothing is printed; otherwise one line with its text piece is
  printed. The queues, the step counter and the state of the engine after the turn are the
  same whatever the text token is: the token only decides the printed line.
\<close>

theorem text_token_logged_only:
  "eng_trace (model_server_iter m data st)
     = eng_trace st @ [E_get data, E_step (step_idx st)]
       @ (if fst (gen_step m (step_idx st)) = 0 \<or> fst (gen_step m (step_idx st)) = 3 then []
          else [E_log (colorize ''[Info]'' ''1;34'', ''token '',
                       F_piece (replace_char 0x2581 0x20
                                 (id_to_piece m (fst (gen_step m (step_idx st))))))])
       @ map E_put (put_tokens (snd (gen_step m (step_idx st))))
   \<and> (model_server_iter m data st)\<lparr>eng_trace := tr\<rparr>
       = st\<lparr>step_idx := Suc (step_idx st), eng_trace := tr,
            s2c := s2c st @ put_tokens (snd (gen_step m (step_idx st)))\<rparr>"
  by (simp add: model_server_iter_eq)

theorem text_token_logged_only_witness:
  "eng_trace (model_server_iter demo_lm (100::nat) demo_warm) = [E_get 100, E_step 0]
   \<and> eng_trace (model_server_iter demo_lm (101::nat) (demo_warm\<lparr>step_idx := 1\<rparr>))
       = [E_get 101, E_step 1,
          E_log (colorize ''[Info]'' ''1;34'', ''token '', F_piece [32, 72]),
          E_put (Tokens 1)]"
  using text_token_logged_only[of demo_lm 100 demo_warm]
        text_token_logged_only[of demo_lm 101 "demo_warm\<lparr>step_idx := 1\<rparr>"]
  by (simp add: demo_lm_def demo_warm_def warm_ready_def put_tokens_def replace_char_def)

text \<open>
  C5. A warmup that returns has done exactly four priming iterations, in this order: each
  encodes a frame of 1920 zeros, polls \<open>get_encoded\<close> with a 10 ms sleep before every call
  until a frame comes, and puts that frame on the client-to-engine channel; the second, third
  and fourth then take one item from the engine-to-client channel, pass it to \<open>decode\<close> and
  poll \<open>get_decoded\<close> the same way until PCM comes; the first does not. And the warmup does
  return when the codec has four encoded and three decoded frames to give and the engine
  emits a frame at each of the three steps after the first priming frame.
\<close>

theorem warmup_four_primings:
  "(full_warmup m st = Done st' \<longrightarrow>
      (\<exists>e0 e1 d1 e2 d2 e3 d3.
         trace st' = trace st @ priming_encode e0
                      @ priming_encode e1 @ priming_decode d1
                      @ priming_encode e2 @ priming_decode d2
                      @ priming_encode e3 @ priming_decode d3))
   \<and> (yields 4 (enc_resp st) \<and> yields 3 (dec_resp st) \<and> eng st = Eng_serving
      \<and> snd (gen_step m (Suc (fed st))) \<noteq> None
      \<and> snd (gen_step m (Suc (Suc (fed st)))) \<noteq> None
      \<and> snd (gen_step m (Suc (Suc (Suc (fed st))))) \<noteq> None
      \<longrightarrow> (\<exists>st1. full_warmup m st = Done st1))"
proof (intro conjI impI)
  assume "full_warmup m st = Done st'"
  then show "\<exists>e0 e1 d1 e2 d2 e3 d3.
         trace st' = trace st @ priming_encode e0
                      @ priming_encode e1 @ priming_decode d1
                      @ priming_encode e2 @ priming_decode d2
                      @ priming_encode e3 @ priming_decode d3"
    by (rule full_warmup_shape)
next
  assume h: "yields 4 (enc_resp st) \<and> yields 3 (dec_resp st) \<and> eng st = Eng_serving
      \<and> snd (gen_step m (Suc (fed st))) \<noteq> None
      \<and> snd (gen_step m (Suc (Suc (fed st)))) \<noteq> None
      \<and> snd (gen_step m (Suc (Suc (Suc (fed st))))) \<noteq> None"
  then have "primed 4 3 (fed st) st" by (simp add: primed_def fed_def)
  from full_warmup_returns[OF this, of m] h show "\<exists>st1. full_warmup m st = Done st1" by simp
qed

theorem warmup_four_primings_witness:
  "yields 4 (enc_resp demo_warm) \<and> yields 3 (dec_resp demo_warm)
   \<and> full_warmup demo_lm demo_warm = Done (final (full_warmup demo_lm demo_warm))
   \<and> (\<exists>e0 e1 d1 e2 d2 e3 d3.
         trace (final (full_warmup demo_lm demo_warm))
           = trace demo_warm @ priming_encode e0
              @ priming_encode e1 @ priming_decode d1
              @ priming_encode e2 @ priming_decode d2
              @ priming_encode e3 @ priming_decode d3)"
proof -
  have h: "yields 4 (enc_resp demo_warm)" "yields 3 (dec_resp demo_warm)"
    "eng demo_warm = Eng_serving" "fed demo_warm = 0"
    by (simp_all add: demo_warm_def warm_ready_def demo_encs_def demo_decs_def yields_def fed_def)
  have g: "snd (gen_step demo_lm (Suc 0)) \<noteq> None" "snd (gen_step demo_lm (Suc (Suc 0))) \<noteq> None"
    "snd (gen_step demo_lm (Suc (Suc (Suc 0)))) \<noteq> None"
    by (simp_all add: demo_lm_def)
  from warmup_four_primings[of demo_lm demo_warm] h g obtain st1 where
    d: "full_warmup demo_lm demo_warm = Done st1" by auto
  then have f: "final (full_warmup demo_lm demo_warm) = st1" by simp
  from warmup_four_primings[of demo_lm demo_warm st1] d f h show ?thesis by simp
qed

lemma main_leftover:
  fixes a :: args and m :: "'t lm" and encs :: "'f option list"
    and decs :: "('a::zero) list option list"
  assumes "main a m encs decs = Done st"
  shows "c2s st = [] \<and> input_queue st = [] \<and> output_queue st = []
       \<and> s2c st = drop 3 (emits m 0 4) \<and> 3 \<le> length (emits m 0 4)
       \<and> (s2c st = [] \<longleftrightarrow> length (emits m 0 4) = 3)
       \<and> (snd (gen_step m 0) = None \<longrightarrow> s2c st = [])"
proof -
  from main_Done[OF assms] obtain f and evs :: "('f, 't) eng_event list" and F where
    F: "full_warmup m (warm_ready f evs encs decs) = Done F"
    and st: "st = F\<lparr>listening := True, trace := trace F @ [Listen]\<rparr>"
    by blast
  let ?W = "warm_ready f evs encs decs :: ('a, 'f, 't) gw"
  have w: "eng ?W = Eng_serving" "owed m ?W = []" "fed ?W = 0"
    "input_queue ?W = []" "output_queue ?W = []"
    by (simp_all add: warm_ready_def owed_def fed_def)
  from full_warmup_owed[OF F w(1)] w have
    r: "c2s F = []" "s2c F = drop 3 (emits m 0 4)" "3 \<le> length (emits m 0 4)"
       "input_queue F = []" "output_queue F = []"
    by simp_all
  have e: "snd (gen_step m 0) = None \<longrightarrow> length (emits m 0 4) \<le> 3"
  proof
    assume "snd (gen_step m 0) = None"
    then have "emits m 0 4 = emits m (Suc 0) 3"
      using emits_Suc_front[of m 0 3] by (simp add: put_tokens_def numeral_eq_Suc)
    with emits_length[of m "Suc 0" 3] show "length (emits m 0 4) \<le> 3" by simp
  qed
  from r e show ?thesis by (auto simp: st)
qed





lemma main_fresh:
  fixes a :: args and m :: "'t lm" and encs :: "'f option list"
    and decs :: "('a::zero) list option list"
  assumes "main a m encs decs = Done st"
  shows "fresh st \<and> listening st"
proof -
  from main_Done[OF assms] obtain f and evs :: "('f, 't) eng_event list" and F where
    F: "full_warmup m (warm_ready f evs encs decs) = Done F"
    and st: "st = F\<lparr>listening := True, trace := trace F @ [Listen]\<rparr>"
    by blast
  let ?W = "warm_ready f evs encs decs :: ('a, 'f, 't) gw"
  have "warm_step ?W (final (full_warmup m ?W))"
    by (rule full_warmup_step) (simp add: warm_ready_def)
  with F have "lock F = lock ?W" "sessions F = sessions ?W" by (simp_all add: warm_step_def)
  then show ?thesis by (simp add: st fresh_def warm_ready_def)
qed


text \<open>
  C10. Whatever the arguments, the engine and the codec do, the gateway's trace up to
  serving starts with the construction of the codec and nothing else before it takes the
  item \<open>start\<close> from the engine-to-client channel: no \<open>encode\<close>, \<open>get_encoded\<close>,
  \<open>decode\<close> or \<open>get_decoded\<close>, and no listening. That item is taken at most once, and what
  is passed to \<open>decode\<close> is always a token frame. The server listens, and so can accept a
  connection, only after it has taken \<open>start\<close>; until then every session is idle. And
  \<open>start\<close> is on the channel only if the engine got through its start, where it is put
  after the weights are loaded and the model is warmed up.
\<close>

theorem readiness_precedes_codec:
  fixes a :: args and m :: "'t lm" and encs :: "'f option list"
    and decs :: "('a::zero) list option list"
  shows "let st = final (main a m encs decs) in
           set (takeWhile (\<lambda>e. e \<noteq> Q_get (Ready ''start'')) (trace st))
             \<subseteq> range Construct_codec
         \<and> (\<forall>x. Decode x \<in> set (trace st) \<longrightarrow> is_tokens x)
         \<and> length (filter is_ready_get (trace st)) \<le> 1
         \<and> (listening st \<longrightarrow> Q_get (Ready ''start'') \<in> set (trace st))
         \<and> (\<forall>c. sessions st c = idle_session)
         \<and> (\<forall>c st'. step m (Accept c) st = Inr st' \<longrightarrow>
                Q_get (Ready ''start'') \<in> set (trace st))
         \<and> (Q_get (Ready ''start'') \<in> set (trace st) \<longrightarrow>
              (\<exists>(evs :: ('f, 't) eng_event list) pre post.
                 startup_events a = Inr evs \<and> prefix evs (eng_trace st)
                 \<and> evs = pre @ E_put (Ready ''start'') # post
                 \<and> E_model_warmup \<in> set pre \<and> (\<exists>w. E_load_weights w \<in> set pre)))"
proof -
  let ?st = "final (main a m encs decs)"
  let ?Q = "Q_get (Ready ''start'') :: ('a, 'f, 't) gw_event"
  have acc: "listening ?st \<longrightarrow> ?Q \<in> set (trace ?st) \<Longrightarrow>
             \<forall>c st'. step m (Accept c) ?st = Inr st' \<longrightarrow> ?Q \<in> set (trace ?st)"
    by (auto simp: do_accept_def Let_def split: if_splits)
  from main_final[of a m encs decs]
  consider (raised) "final (main a m encs decs) = model_server_startup a (boot encs decs)"
    | (stalled) f e where "final (main a m encs decs) = stalled f e encs decs"
    | (warm) f and evs :: "('f, 't) eng_event list" and F where
        "startup_events a = Inr evs" "warm_step (warm_ready f evs encs decs) F"
        "final (main a m encs decs) = F
         \<or> final (main a m encs decs) = F\<lparr>listening := True, trace := trace F @ [Listen]\<rparr>"
    by blast
  then have
    "set (takeWhile (\<lambda>e. e \<noteq> ?Q) (trace ?st)) \<subseteq> range Construct_codec
     \<and> (\<forall>x. Decode x \<in> set (trace ?st) \<longrightarrow> is_tokens x)
     \<and> length (filter is_ready_get (trace ?st)) \<le> 1
     \<and> (listening ?st \<longrightarrow> ?Q \<in> set (trace ?st))
     \<and> (\<forall>c. sessions ?st c = idle_session)
     \<and> (?Q \<in> set (trace ?st) \<longrightarrow>
          (\<exists>(evs :: ('f, 't) eng_event list) pre post.
             startup_events a = Inr evs \<and> prefix evs (eng_trace ?st)
             \<and> evs = pre @ E_put (Ready ''start'') # post
             \<and> E_model_warmup \<in> set pre \<and> (\<exists>w. E_load_weights w \<in> set pre)))"
  proof cases
    case raised
    then show ?thesis by (simp add: startup_fields boot_def)
  next
    case stalled
    then show ?thesis by (simp add: stalled_def)
  next
    case warm
    let ?W = "warm_ready f evs encs decs :: ('a, 'f, 't) gw"
    from warm(2) obtain new where
      new: "trace F = trace ?W @ new" "list_all warm_event new"
      and pf: "prefix (eng_trace ?W) (eng_trace F)"
      and keep: "listening F = listening ?W" "sessions F = sessions ?W"
      by (auto simp: warm_step_def)
    from warm(3) obtain tl where
      tl: "tl = [] \<or> tl = [Listen]" "trace ?st = trace F @ tl"
      "eng_trace ?st = eng_trace F" "sessions ?st = sessions F"
      by auto
    have trW: "trace ?W = [Construct_codec f, ?Q,
                 Gw_log (colorize ''[Info]'' ''1;34'', received_text, F_str ''start'')]"
      by (simp add: warm_ready_def)
    have tr: "trace ?st = [Construct_codec f, ?Q,
                 Gw_log (colorize ''[Info]'' ''1;34'', received_text, F_str ''start'')]
               @ new @ tl"
      using tl(2) new(1) trW by simp
    have nw: "\<forall>e\<in>set new. warm_event e" using new(2) by (simp add: list_all_iff)
    have a1: "set (takeWhile (\<lambda>e. e \<noteq> ?Q) (trace ?st)) \<subseteq> range Construct_codec"
      by (simp add: tr)
    have a2: "\<forall>x. Decode x \<in> set (trace ?st) \<longrightarrow> is_tokens x"
      using nw tl(1) by (auto simp: tr dest: warm_event_Decode)
    have "filter is_ready_get new = []"
      using nw by (auto simp: filter_empty_conv dest: warm_event_facts(2))
    then have a3: "length (filter is_ready_get (trace ?st)) \<le> 1"
      using tl(1) by (auto simp: tr)
    have a4: "?Q \<in> set (trace ?st)" by (simp add: tr)
    have a5: "\<forall>c. sessions ?st c = idle_session"
      using tl(4) keep(2) by (simp add: warm_ready_def)
    from startup_events_shape[OF warm(1)] obtain l1 tf l2 mf l3 l4 l5 where
      evs: "evs = [E_log l1, E_load_tokenizer tf, E_build_model (arg_quantized a),
                  E_log l2, E_load_weights mf, E_log l3,
                  E_model_warmup, E_log l4, E_make_gen] @ E_put (Ready ''start'') # [E_log l5]"
      by auto
    have "prefix evs (eng_trace ?st)" using pf tl(3) by (simp add: warm_ready_def)
    with warm(1) evs have a6:
      "\<exists>(evs :: ('f, 't) eng_event list) pre post.
             startup_events a = Inr evs \<and> prefix evs (eng_trace ?st)
             \<and> evs = pre @ E_put (Ready ''start'') # post
             \<and> E_model_warmup \<in> set pre \<and> (\<exists>w. E_load_weights w \<in> set pre)"
      by (intro exI[of _ evs] exI[of _ "[E_log l1, E_load_tokenizer tf,
             E_build_model (arg_quantized a), E_log l2, E_load_weights mf, E_log l3,
             E_model_warmup, E_log l4, E_make_gen]"] exI[of _ "[E_log l5]"]) auto
    from a1 a2 a3 a4 a5 a6 show ?thesis by blast
  qed
  with acc show ?thesis unfolding Let_def by blast
qed

theorem readiness_precedes_codec_witness:
  "listening (final (main demo_args demo_lm demo_encs demo_decs))
   \<and> Q_get (Ready ''start'') \<in> set (trace (final (main demo_args demo_lm demo_encs demo_decs)))"
proof -
  have "\<exists>st. main demo_args demo_lm demo_encs demo_decs = Done st"
    by (rule main_returns[where f = "Local_file ''mimi.safetensors''"])
       (simp_all add: demo_args_def choose_mimi_file_def startup_events_def
          choose_model_file_def choose_tokenizer_file_def bind_err_def log_def
          demo_encs_def demo_decs_def yields_def demo_lm_def)
  then obtain st where d: "main demo_args demo_lm demo_encs demo_decs = Done st" by blast
  from main_fresh[OF d] d have l: "listening (final (main demo_args demo_lm demo_encs demo_decs))"
    by simp
  from readiness_precedes_codec[of demo_args demo_lm demo_encs demo_decs] l
  show ?thesis unfolding Let_def by blast
qed

lemma put_session_keeps:
  "put_session c (Inr s) st = Inr st' \<Longrightarrow>
     input_queue st' = input_queue st \<and> trace st' = trace st
     \<and> sessions st' = (sessions st)(c := s)"
  by (auto simp: put_session_def upd_def)

lemma step_effect:
  assumes "step m a st = Inr st'"
  shows "(\<exists>c pcm. a = Opus_body c (Some pcm) \<and> trace st' = trace st
            \<and> (\<forall>d. d \<noteq> c \<longrightarrow> all_pcm_data (sessions st' d) = all_pcm_data (sessions st d))
            \<and> opus_poll pcm (all_pcm_data (sessions st c), input_queue st)
                = (all_pcm_data (sessions st' c), input_queue st'))
       \<or> (a = Outer_send \<and> sessions st' = sessions st
            \<and> ((input_queue st = [] \<and> input_queue st' = [] \<and> trace st' = trace st @ [Sleep 1])
               \<or> (\<exists>x w. input_queue st = x # w \<and> input_queue st' = w
                      \<and> trace st' = trace st @ [Sleep 1, Encode x])))
       \<or> (input_queue st' = input_queue st
            \<and> (\<forall>d. all_pcm_data (sessions st' d) = all_pcm_data (sessions st d))
            \<and> (\<exists>new. trace st' = trace st @ new \<and> (\<forall>x. Encode x \<notin> set new)))"
proof (cases a)
  case (Accept c)
  with assms show ?thesis
    by (auto simp: do_accept_def Let_def emit_simps dest!: put_session_keeps split: if_splits)
next
  case (Acquire c)
  with assms show ?thesis by (auto simp: do_acquire_def upd_def split: if_splits)
next
  case (Handshake c)
  with assms show ?thesis by (auto simp: do_handshake_def upd_def split: if_splits)
next
  case (Recv c msg)
  with assms have en: "do_recv c msg st = Inr st'" by simp
  have "input_queue st' = input_queue st \<and> trace st' = trace st
        \<and> (\<forall>d. all_pcm_data (sessions st' d) = all_pcm_data (sessions st d))"
  proof (cases "recv_body msg (sessions st c)")
    case (Inl e)
    with en show ?thesis
      by (auto simp: do_recv_def Let_def upd_def recv_exit_eq split: if_splits)
  next
    case (Inr r)
    then obtain fl s1 where rb: "recv_body msg (sessions st c) = Inr (fl, s1)"
      by (cases r) simp
    note k = recv_body_keeps[OF rb]
    from en rb k show ?thesis
      by (cases fl) (auto simp: do_recv_def Let_def upd_def recv_exit_eq split: if_splits)
  qed
  then show ?thesis by simp
next
  case (Recv_end c)
  with assms show ?thesis
    by (auto simp: do_recv_end_def Let_def upd_def recv_exit_eq split: if_splits)
next
  case (Opus_check c)
  with assms show ?thesis by (auto simp: do_opus_check_def Let_def upd_def split: if_splits)
next
  case (Opus_body c pcm)
  with assms show ?thesis
    by (auto simp: do_opus_body_def Let_def upd_def split: if_splits prod.splits option.splits)
next
  case (Send_check c)
  with assms show ?thesis by (auto simp: do_send_check_def Let_def upd_def split: if_splits)
next
  case (Send_body c msg)
  with assms show ?thesis by (auto simp: do_send_body_def Let_def upd_def split: if_splits)
next
  case (Another_check c)
  with assms show ?thesis by (auto simp: do_another_check_def Let_def upd_def split: if_splits)
next
  case (Another_body c)
  with assms show ?thesis
    by (auto simp: do_another_body_def Let_def upd_def split: if_splits list.splits)
next
  case (Release c)
  with assms show ?thesis
    by (auto simp: do_release_def Let_def emit_simps put_session_def upd_def split: if_splits)
next
  case Outer_send
  with assms show ?thesis by (auto simp: do_outer_send_def split: if_splits list.splits)
next
  case Outer_recv
  with assms show ?thesis
    by (auto simp: do_outer_recv_def split: if_splits list.splits option.splits)
next
  case Send_loop2
  with assms show ?thesis
    by (auto simp: do_send_loop2_def split: if_splits list.splits option.splits)
next
  case Recv_loop2
  with assms show ?thesis by (auto simp: do_recv_loop2_def split: if_splits list.splits)
next
  case Engine_turn
  with assms show ?thesis
    by (auto simp: do_engine_turn_def model_server_iter_eq split: if_splits list.splits)
qed

lemma frames_step:
  assumes "frames_ok st" and "step m a st = Inr st'"
  shows "frames_ok st'"
proof -
  from assms(1) have q: "\<forall>f\<in>set (input_queue st). length f = 1920"
    and e: "\<forall>x. Encode x \<in> set (trace st) \<longrightarrow> length x = 1920"
    and b: "\<forall>c. length (buffered (all_pcm_data (sessions st c))) < 1920"
    by (simp_all add: frames_ok_def)
  from step_effect[OF assms(2)]
  consider (opus) c pcm where "trace st' = trace st"
        "\<forall>d. d \<noteq> c \<longrightarrow> all_pcm_data (sessions st' d) = all_pcm_data (sessions st d)"
        "opus_poll pcm (all_pcm_data (sessions st c), input_queue st)
                = (all_pcm_data (sessions st' c), input_queue st')"
    | (idle) "sessions st' = sessions st" "input_queue st = []" "input_queue st' = []"
        "trace st' = trace st @ [Sleep 1]"
    | (feed) x w where "sessions st' = sessions st" "input_queue st = x # w"
        "input_queue st' = w" "trace st' = trace st @ [Sleep 1, Encode x]"
    | (other) new where "input_queue st' = input_queue st"
        "\<forall>d. all_pcm_data (sessions st' d) = all_pcm_data (sessions st d)"
        "trace st' = trace st @ new" "\<forall>x. Encode x \<notin> set new"
    by blast
  then show ?thesis
  proof cases
    case opus
    from opus_poll_props[OF opus(3)] obtain new where
      n: "input_queue st' = input_queue st @ new" "\<forall>f\<in>set new. length f = FRAME_SIZE"
         "length (buffered (all_pcm_data (sessions st c))) < FRAME_SIZE
            \<longrightarrow> length (buffered (all_pcm_data (sessions st' c))) < FRAME_SIZE"
      by blast
    have "length (buffered (all_pcm_data (sessions st' d))) < 1920" for d
      using b n(3) opus(2) by (cases "d = c") (auto simp: FRAME_SIZE_def)
    with q e n opus(1) show ?thesis by (auto simp: frames_ok_def FRAME_SIZE_def)
  next
    case idle
    with q e b show ?thesis by (auto simp: frames_ok_def)
  next
    case feed
    with q e b show ?thesis by (auto simp: frames_ok_def)
  next
    case other
    with q e b show ?thesis by (auto simp: frames_ok_def)
  qed
qed

lemma frames_run: "frames_ok st \<Longrightarrow> run m acts st = Inr st' \<Longrightarrow> frames_ok st'"
proof (induction acts arbitrary: st)
  case Nil
  then show ?case by simp
next
  case (Cons a acts)
  from Cons.prems(2) obtain st1 where s1: "step m a st = Inr st1" and r: "run m acts st1 = Inr st'"
    by (cases "step m a st") simp_all
  from frames_step[OF Cons.prems(1) s1] have "frames_ok st1" .
  from Cons.IH[OF this r] show ?case .
qed

lemma polls_no_Encode:
  "Encode x \<notin> set (enc_polls k d)" "Encode x \<notin> set (dec_polls k p)"
  by (auto simp: enc_polls_def dec_polls_def)

lemma priming_Encode:
  "Encode x \<in> set (priming_encode e) \<Longrightarrow> length x = 1920"
  "Encode x \<notin> set (priming_decode d)"
  by (auto simp: priming_encode_def priming_decode_def polls_no_Encode)

lemma main_frames:
  fixes a :: args and m :: "'t lm" and encs :: "'f option list"
    and decs :: "('a::zero) list option list"
  assumes "main a m encs decs = Done st"
  shows "frames_ok st"
proof -
  from main_Done[OF assms] obtain f and evs :: "('f, 't) eng_event list" and F where
    F: "full_warmup m (warm_ready f evs encs decs) = Done F"
    and st: "st = F\<lparr>listening := True, trace := trace F @ [Listen]\<rparr>"
    by blast
  from full_warmup_shape[OF F] obtain e0 e1 d1 e2 d2 e3 d3 where
    "trace F = trace (warm_ready f evs encs decs :: ('a, 'f, 't) gw) @ priming_encode e0
                        @ priming_encode e1 @ priming_decode d1
                        @ priming_encode e2 @ priming_decode d2
                        @ priming_encode e3 @ priming_decode d3"
    by blast
  then have e: "\<forall>x. Encode x \<in> set (trace st) \<longrightarrow> length x = 1920"
    by (auto simp: st warm_ready_def priming_Encode)
  from main_fresh[OF assms] have "\<forall>c. sessions st c = idle_session" by (simp add: fresh_def)
  then have b: "\<forall>c. length (buffered (all_pcm_data (sessions st c))) < 1920"
    by (simp add: idle_session_def buffered_def)
  from main_leftover[OF assms] have "input_queue st = []" by simp
  with e b show ?thesis by (simp add: frames_ok_def)
qed

text \<open>
  C2. For any sequence of PCM chunks a session's assembler reads, from an empty buffer, the
  frames it appends to the PCM-in queue all have 1920 samples, these frames followed by
  what is left in the buffer are the chunks read, sample for sample, and fewer than 1920
  samples are left. And in every state the gateway reaches once it serves, with any number
  of sessions, every buffer passed to \<open>encode\<close> (the four zero frames of the warmup
  included) and every frame waiting in the PCM-in queue has 1920 samples, and every
  session's buffer holds fewer than 1920.
\<close>

theorem assembler_frames_exact:
  fixes a :: args and m :: "'t lm" and encs :: "'f option list"
    and decs :: "('a::zero) list option list"
  shows "(opus_polls polls (None, queue) = (acc, queue') \<longrightarrow>
            take (length queue) queue' = queue
          \<and> (\<forall>f\<in>set (drop (length queue) queue'). length f = 1920)
          \<and> concat (drop (length queue) queue') @ buffered acc = concat polls
          \<and> length (buffered acc) < 1920)
       \<and> (main a m encs decs = Done st0 \<and> run m acts st0 = Inr st \<longrightarrow>
            (\<forall>x. Encode x \<in> set (trace st) \<longrightarrow> length x = 1920)
          \<and> (\<forall>f\<in>set (input_queue st). length f = 1920)
          \<and> (\<forall>c. length (buffered (all_pcm_data (sessions st c))) < 1920))"
proof -
  have one: "take (length queue) queue' = queue
          \<and> (\<forall>f\<in>set (drop (length queue) queue'). length f = 1920)
          \<and> concat (drop (length queue) queue') @ buffered acc = concat polls
          \<and> length (buffered acc) < 1920"
    if h: "opus_polls polls (None, queue) = (acc, queue')"
  proof -
    from opus_polls_props[OF h] obtain new where
    "queue' = queue @ new" "\<forall>f\<in>set new. length f = FRAME_SIZE"
    "concat new @ buffered acc = concat polls" "length (buffered acc) < FRAME_SIZE"
      by (auto simp: buffered_def FRAME_SIZE_def)
    then show ?thesis by (simp add: FRAME_SIZE_def)
  qed
  have two: "(\<forall>x. Encode x \<in> set (trace st) \<longrightarrow> length x = 1920)
          \<and> (\<forall>f\<in>set (input_queue st). length f = 1920)
          \<and> (\<forall>c. length (buffered (all_pcm_data (sessions st c))) < 1920)"
    if h: "main a m encs decs = Done st0 \<and> run m acts st0 = Inr st"
  proof -
    from h have d: "main a m encs decs = Done st0" and r: "run m acts st0 = Inr st"
      by simp_all
    from main_frames[OF d] have "frames_ok st0" .
    from frames_run[OF this r] have "frames_ok st" .
    then show ?thesis by (simp add: frames_ok_def)
  qed
  from one two show ?thesis by blast
qed

theorem assembler_frames_exact_witness:
  "opus_polls [replicate 1000 (0::nat), [], replicate 1000 1] (None, [])
     = (Some (replicate 80 1), [replicate 1000 0 @ replicate 920 1])
   \<and> length (buffered (Some (replicate 80 (1::nat)))) < 1920
   \<and> main demo_args demo_lm demo_encs demo_decs
       = Done (final (main demo_args demo_lm demo_encs demo_decs))
   \<and> run demo_lm demo_feed_acts (final (main demo_args demo_lm demo_encs demo_decs))
       = Inr (projr (run demo_lm demo_feed_acts
                       (final (main demo_args demo_lm demo_encs demo_decs))))
   \<and> last (trace (projr (run demo_lm demo_feed_acts
                       (final (main demo_args demo_lm demo_encs demo_decs)))))
       = Encode (replicate 1920 5)
   \<and> buffered (all_pcm_data (sessions (projr (run demo_lm demo_feed_acts
                       (final (main demo_args demo_lm demo_encs demo_decs)))) 0))
       = replicate 80 5"
proof -
  let ?st0 = "final (main demo_args demo_lm demo_encs demo_decs)"
  have h: "opus_polls [replicate 1000 (0::nat), [], replicate 1000 1] (None, [])
     = (Some (replicate 80 1), [replicate 1000 0 @ replicate 920 1])"
    by (simp add: opus_poll_def slice_frames.simps FRAME_SIZE_def)
  have "\<exists>st. main demo_args demo_lm demo_encs demo_decs = Done st"
    by (rule main_returns[where f = "Local_file ''mimi.safetensors''"])
       (simp_all add: demo_args_def choose_mimi_file_def startup_events_def
          choose_model_file_def choose_tokenizer_file_def bind_err_def log_def
          demo_encs_def demo_decs_def yields_def demo_lm_def)
  then have d: "main demo_args demo_lm demo_encs demo_decs = Done ?st0" by auto
  from main_fresh[OF d] have fr: "lock ?st0 = None" "sessions ?st0 0 = idle_session"
    "listening ?st0"
    by (simp_all add: fresh_def)
  from main_leftover[OF d] have q: "input_queue ?st0 = []" by simp
  have r: "\<not> isl (run demo_lm demo_feed_acts ?st0)"
    "last (trace (projr (run demo_lm demo_feed_acts ?st0))) = Encode (replicate 1920 5)"
    "buffered (all_pcm_data (sessions (projr (run demo_lm demo_feed_acts ?st0)) 0))
       = replicate 80 5"
    by (simp_all add: fr q demo_feed_acts_def idle_session_def do_accept_def do_acquire_def
        do_handshake_def do_opus_check_def do_opus_body_def do_outer_send_def put_session_def
        upd_def emit_simps Let_def check_close_def opus_poll_def slice_frames.simps
        FRAME_SIZE_def buffered_def)
  then have r': "run demo_lm demo_feed_acts ?st0 = Inr (projr (run demo_lm demo_feed_acts ?st0))"
    by simp
  from assembler_frames_exact[of "[replicate 1000 (0::nat), [], replicate 1000 1]" "[]"
        "Some (replicate 80 1)" "[replicate 1000 0 @ replicate 920 1]"
        demo_args demo_lm demo_encs demo_decs ?st0 demo_feed_acts
        "projr (run demo_lm demo_feed_acts ?st0)"] h d r' r(2,3)
  show ?thesis by simp
qed

end
